theory Spec2Isabelle
  imports Complex_Main "HOL-Library.List_Lexorder" "HOL-Library.Multiset"
begin

section \<open>Sequential search for bad science matrices: the model\<close>

text \<open>
  The notebook \<^verbatim>\<open>Sequential_Search.ipynb\<close> is modelled cell by cell. A two-dimensional
  tensor is the list of its rows. Scalars are real numbers: the rounding of 32-bit floats is
  not modelled, but the one place where the code relies on a non-finite float, the division
  of a zero row by its zero norm, is: the quotient is a value of type \<open>fl\<close>, which has
  not-a-number and the two infinities beside the finite values. An exception of Python or
  torch is a value \<open>Inl e\<close>.

  A list of rows cannot tell a tensor of shape \<open>(0, k)\<close> from one of shape \<open>(0, 0)\<close>, so the
  model is meant for \<open>n \<ge> 1\<close>, where no tensor has a dimension of size zero; the notebook
  runs with \<open>n = 3\<close>.
\<close>

datatype error = IndexError | RuntimeError | NonFinite

datatype fl = Fin real | PInf | NInf | NaN

type_synonym mat = "real list list"

definition bind_err :: "error + 'a \<Rightarrow> ('a \<Rightarrow> error + 'b) \<Rightarrow> error + 'b" where
  "bind_err m f = (case m of Inl e \<Rightarrow> Inl e | Inr x \<Rightarrow> f x)"

subsection \<open>Sign vectors\<close>

text \<open>\<^verbatim>\<open>list(itertools.product(xs, repeat=k))\<close>: the first coordinate varies slowest.\<close>

primrec product_repeat :: "'a list \<Rightarrow> nat \<Rightarrow> 'a list list" where
  "product_repeat xs 0 = [[]]"
| "product_repeat xs (Suc k) = concat (map (\<lambda>x. map ((#) x) (product_repeat xs k)) xs)"

text \<open>\<^verbatim>\<open>vectors(n, binary)\<close>: the tensor of the product's tuples, transposed (\<^verbatim>\<open>.T\<close>).\<close>

definition vectors :: "nat \<Rightarrow> bool \<Rightarrow> mat" where
  "vectors n binary =
     (if binary then transpose (product_repeat [0, 1] n)
      else transpose (product_repeat [-1, 1] n))"

subsection \<open>Tensor operations\<close>

definition dot :: "real list \<Rightarrow> real list \<Rightarrow> real" where
  "dot u v = sum_list (map2 (*) u v)"

text \<open>
  \<^verbatim>\<open>torch.matmul(A, B)\<close> of two matrices: every row of \<open>A\<close> must be as long as \<open>B\<close> has
  rows, or torch raises a RuntimeError.
\<close>

definition matmul :: "mat \<Rightarrow> mat \<Rightarrow> error + mat" where
  "matmul A B =
     (if list_all (\<lambda>a. length a = length B) A
      then Inr (map (\<lambda>a. map (dot a) (transpose B)) A)
      else Inl RuntimeError)"

text \<open>\<^verbatim>\<open>torch.norm(rows, dim=1)\<close> of one row: the Euclidean norm.\<close>

definition norm2 :: "real list \<Rightarrow> real" where
  "norm2 row = sqrt (sum_list (map (\<lambda>x. x * x) row))"

text \<open>
  Division of floats by a norm (which is never negative): a zero divided by zero is
  not-a-number, anything else divided by zero is an infinity.
\<close>

definition fdiv :: "real \<Rightarrow> real \<Rightarrow> fl" where
  "fdiv x y =
     (if y \<noteq> 0 then Fin (x / y)
      else if x = 0 then NaN
      else if 0 < x then PInf else NInf)"

definition isnan :: "fl \<Rightarrow> bool" where
  "isnan x = (x = NaN)"

text \<open>
  \<^verbatim>\<open>torch.unique(t, dim=0)\<close>: the rows are sorted lexicographically and runs of equal
  rows are collapsed to one row.
\<close>

definition unique_dim0 :: "mat \<Rightarrow> mat" where
  "unique_dim0 t = remdups_adj (sort t)"

subsection \<open>Sign canonicalisation\<close>

text \<open>
  \<^verbatim>\<open>(row != 0).nonzero(as_tuple=True)[0][0]\<close>: the first index of a nonzero entry; the
  final \<^verbatim>\<open>[0]\<close> raises IndexError when the row has none.
\<close>

definition first_non_zero_index :: "real list \<Rightarrow> error + nat" where
  "first_non_zero_index row =
     (case filter (\<lambda>i. row ! i \<noteq> 0) [0..<length row] of
        [] \<Rightarrow> Inl IndexError
      | i # _ \<Rightarrow> Inr i)"

text \<open>The body of the loop of \<^verbatim>\<open>fix_row_signs\<close>; \<^verbatim>\<open>torch.sign\<close> is \<open>sgn\<close>.\<close>

definition fix_row :: "real list \<Rightarrow> error + real list" where
  "fix_row row =
     bind_err (first_non_zero_index row)
       (\<lambda>i. Inr (map (\<lambda>x. x * sgn (row ! i)) row))"

fun fix_rows_loop :: "mat \<Rightarrow> error + mat" where
  "fix_rows_loop [] = Inr []"
| "fix_rows_loop (row # rest) =
     bind_err (fix_row row)
       (\<lambda>normalized_row. bind_err (fix_rows_loop rest)
          (\<lambda>normalized_rest. Inr (normalized_row # normalized_rest)))"

text \<open>\<^verbatim>\<open>torch.stack\<close> of an empty list raises a RuntimeError.\<close>

definition fix_row_signs :: "mat \<Rightarrow> error + mat" where
  "fix_row_signs tensor =
     bind_err (fix_rows_loop tensor)
       (\<lambda>normalized_tensor.
          if normalized_tensor = [] then Inl RuntimeError
          else Inr (unique_dim0 normalized_tensor))"

subsection \<open>Candidate rows\<close>

text \<open>The stages of \<^verbatim>\<open>candidate_rows(n)\<close>, one definition for each local variable.\<close>

definition binary_choices :: "nat \<Rightarrow> mat" where
  "binary_choices n = transpose (vectors (2 ^ n) True)"

definition rows_raw :: "nat \<Rightarrow> error + mat" where
  "rows_raw n = matmul (binary_choices n) (transpose (vectors n False))"

text \<open>\<^verbatim>\<open>rows / row_norms\<close>: every entry of a row is divided by the norm of that row.\<close>

definition normalize_row :: "real list \<Rightarrow> fl list" where
  "normalize_row row = map (\<lambda>x. fdiv x (norm2 row)) row"

definition normalized_rows_with_nans :: "nat \<Rightarrow> error + fl list list" where
  "normalized_rows_with_nans n = bind_err (rows_raw n) (\<lambda>rows. Inr (map normalize_row rows))"

text \<open>
  \<^verbatim>\<open>t[~torch.all(t.isnan(), dim=1)]\<close>: the rows whose entries are all not-a-number are
  dropped.
\<close>

definition drop_nan_rows :: "fl list list \<Rightarrow> fl list list" where
  "drop_nan_rows t = filter (\<lambda>row. \<not> list_all isnan row) t"

definition normalized_rows :: "nat \<Rightarrow> error + fl list list" where
  "normalized_rows n = bind_err (normalized_rows_with_nans n) (\<lambda>t. Inr (drop_nan_rows t))"

text \<open>
  The later stages compare, sort and multiply finite numbers. They are modelled on reals, so
  the model checks here that every entry that survived the filter is finite, and reports
  \<open>NonFinite\<close> otherwise (the code has no such check: it would carry the value on).
\<close>

fun fl_to_real :: "fl \<Rightarrow> error + real" where
  "fl_to_real (Fin x) = Inr x"
| "fl_to_real _ = Inl NonFinite"

fun row_to_reals :: "fl list \<Rightarrow> error + real list" where
  "row_to_reals [] = Inr []"
| "row_to_reals (x # xs) =
     bind_err (fl_to_real x) (\<lambda>y. bind_err (row_to_reals xs) (\<lambda>ys. Inr (y # ys)))"

fun rows_to_reals :: "fl list list \<Rightarrow> error + mat" where
  "rows_to_reals [] = Inr []"
| "rows_to_reals (r # rs) =
     bind_err (row_to_reals r) (\<lambda>y. bind_err (rows_to_reals rs) (\<lambda>ys. Inr (y # ys)))"

definition unique_normalized_rows :: "nat \<Rightarrow> error + mat" where
  "unique_normalized_rows n =
     bind_err (normalized_rows n)
       (\<lambda>t. bind_err (rows_to_reals t) (\<lambda>finite_rows. Inr (unique_dim0 finite_rows)))"

definition candidate_rows :: "nat \<Rightarrow> error + mat" where
  "candidate_rows n = bind_err (unique_normalized_rows n) fix_row_signs"

subsection \<open>The objective\<close>

text \<open>
  \<^verbatim>\<open>binary_vectors = vectors(n)[:, :2**(n-1)]\<close>: the first \<open>2 ^ (n - 1)\<close> columns. (For
  \<open>n = 0\<close> the exponent is negative in Python; the claims are about \<open>1 \<le> n\<close>.)
\<close>

definition binary_vectors :: "nat \<Rightarrow> mat" where
  "binary_vectors n = map (take (2 ^ (n - 1))) (vectors n False)"

text \<open>
  \<^verbatim>\<open>torch.max(t, dim=0).values\<close>: the maximum of every column; torch raises IndexError
  when the tensor has no row.
\<close>

definition max_dim0 :: "mat \<Rightarrow> error + real list" where
  "max_dim0 t =
     (if t = [] then Inl IndexError
      else Inr (map (\<lambda>col. Max (set col)) (transpose t)))"

text \<open>\<^verbatim>\<open>torch.mean\<close>: the mean of no value at all is not-a-number.\<close>

definition mean :: "real list \<Rightarrow> fl" where
  "mean xs = (if xs = [] then NaN else Fin (sum_list xs / real (length xs)))"

definition beta :: "mat \<Rightarrow> mat \<Rightarrow> error + fl" where
  "beta A bvs =
     bind_err (matmul A bvs)
       (\<lambda>B. bind_err (max_dim0 (map (map abs) B)) (\<lambda>m. Inr (mean m)))"

subsection \<open>The search loop\<close>

text \<open>
  \<^verbatim>\<open>itertools.combinations(elements, r)\<close>: the \<open>r\<close>-element subsequences, in
  lexicographic order of their positions.
\<close>

fun combinations :: "'a list \<Rightarrow> nat \<Rightarrow> 'a list list" where
  "combinations xs 0 = [[]]"
| "combinations [] (Suc r) = []"
| "combinations (x # xs) (Suc r) = map ((#) x) (combinations xs r) @ combinations xs (Suc r)"

text \<open>
  \<^verbatim>\<open>rows[torch.tensor(combination)]\<close>: the rows at the indices of the combination. The
  tensor of an empty tuple is a float tensor, which torch refuses as an index (IndexError),
  as it refuses an index out of range.
\<close>

definition index_rows :: "mat \<Rightarrow> nat list \<Rightarrow> error + mat" where
  "index_rows rows combination =
     (if combination = [] then Inl IndexError
      else if list_all (\<lambda>i. i < length rows) combination
      then Inr (map ((!) rows) combination)
      else Inl IndexError)"

text \<open>\<^verbatim>\<open>a < b\<close> on floats: a comparison with not-a-number is false.\<close>

fun fl_less :: "fl \<Rightarrow> fl \<Rightarrow> bool" where
  "fl_less NaN b = False"
| "fl_less a NaN = False"
| "fl_less (Fin x) (Fin y) = (x < y)"
| "fl_less (Fin x) PInf = True"
| "fl_less (Fin x) NInf = False"
| "fl_less NInf NInf = False"
| "fl_less NInf b = True"
| "fl_less PInf b = False"

text \<open>
  The for loop over the combinations; the state is the pair \<open>(beta_max, best_A)\<close>. The loop
  computes the candidate's value with the expression that is the body of \<^verbatim>\<open>beta\<close>, and
  replaces the state when \<^verbatim>\<open>beta_candidate > beta_max\<close>.
\<close>

fun search_loop :: "mat \<Rightarrow> mat \<Rightarrow> nat list list \<Rightarrow> fl \<times> mat option \<Rightarrow> error + fl \<times> mat option" where
  "search_loop rows bvs [] state = Inr state"
| "search_loop rows bvs (combination # rest) (beta_max, best_A) =
     bind_err (index_rows rows combination)
       (\<lambda>A. bind_err (beta A bvs)
          (\<lambda>beta_candidate.
             search_loop rows bvs rest
               (if fl_less beta_max beta_candidate then (beta_candidate, Some A)
                else (beta_max, best_A))))"

text \<open>\<^verbatim>\<open>elements = range(rows.shape[0])\<close>, \<^verbatim>\<open>beta_max = 0\<close>, \<^verbatim>\<open>best_A = None\<close>.\<close>

definition search :: "mat \<Rightarrow> mat \<Rightarrow> nat \<Rightarrow> error + fl \<times> mat option" where
  "search rows bvs r = search_loop rows bvs (combinations [0..<length rows] r) (Fin 0, None)"

text \<open>
  The notebook's cells in order, for the parameters \<open>n\<close> and \<open>r\<close>, up to the end of the
  loop. The cells assign \<open>n\<close> and \<open>r\<close> and check neither. The prints that follow the loop
  are presentation and are not modelled.
\<close>

definition sequential_search :: "nat \<Rightarrow> nat \<Rightarrow> error + fl \<times> mat option" where
  "sequential_search n r =
     bind_err (candidate_rows n) (\<lambda>rows. search rows (binary_vectors n) r)"

subsection \<open>Integer rows, for counting\<close>

text \<open>
  The definitions of this subsection are not part of the notebook. The raw rows are vectors of
  integers, and two of them give the same candidate row exactly when they point in the same
  direction up to sign, which integer arithmetic decides. \<open>count_directions\<close> counts the
  directions of the nonzero raw rows; the candidate rows are shown to be as many.
\<close>

definition idot :: "int list \<Rightarrow> int list \<Rightarrow> int" where
  "idot u v = sum_list (map2 (*) u v)"

definition int_rows :: "nat \<Rightarrow> int list list" where
  "int_rows n =
     map (\<lambda>a. map (idot a) (transpose (product_repeat [-1, 1] n))) (product_repeat [0, 1] (2 ^ n))"

definition ifirst_sign :: "int list \<Rightarrow> int" where
  "ifirst_sign row =
     (case filter (\<lambda>i. row ! i \<noteq> 0) [0..<length row] of [] \<Rightarrow> 0 | i # _ \<Rightarrow> sgn (row ! i))"

definition same_direction :: "int list \<Rightarrow> int list \<Rightarrow> bool" where
  "same_direction u w =
     (let su = sum_list (map (\<lambda>x. x * x) u); sw = sum_list (map (\<lambda>x. x * x) w);
          gu = ifirst_sign u; gw = ifirst_sign w
      in list_all2 (\<lambda>x y. sgn x * gu = sgn y * gw \<and> x * x * sw = y * y * su) u w)"

fun remdups_by :: "('a \<Rightarrow> 'a \<Rightarrow> bool) \<Rightarrow> 'a list \<Rightarrow> 'a list" where
  "remdups_by eq [] = []"
| "remdups_by eq (x # xs) = (if list_ex (eq x) xs then remdups_by eq xs else x # remdups_by eq xs)"

definition count_directions :: "nat \<Rightarrow> nat" where
  "count_directions n =
     length (remdups_by same_direction (filter (list_ex (\<lambda>x. x \<noteq> 0)) (int_rows n)))"

section \<open>Auxiliary facts\<close>

subsection \<open>Errors\<close>

lemma bind_err_Inr [simp]: "bind_err (Inr x) f = f x"
  by (simp add: bind_err_def)

lemma bind_err_Inl [simp]: "bind_err (Inl e) f = Inl e"
  by (simp add: bind_err_def)

lemma bind_err_eq_Inr:
  "bind_err m f = Inr y \<longleftrightarrow> (\<exists>x. m = Inr x \<and> f x = Inr y)"
  by (cases m) simp_all

subsection \<open>Products\<close>

lemma length_product_repeat: "length (product_repeat xs k) = length xs ^ k"
  by (induction k) (simp_all add: length_concat comp_def sum_list_triv)

lemma length_product_repeat_pair: "length (product_repeat [a, b] k) = 2 ^ k"
  by (simp only: length_product_repeat) (simp add: numeral_2_eq_2)

lemma set_product_repeat:
  "set (product_repeat xs k) = {v. length v = k \<and> set v \<subseteq> set xs}"
proof (induction k)
  case 0
  then show ?case by auto
next
  case (Suc k)
  show ?case
  proof (rule set_eqI)
    fix v :: "'a list"
    show "v \<in> set (product_repeat xs (Suc k)) \<longleftrightarrow> v \<in> {v. length v = Suc k \<and> set v \<subseteq> set xs}"
      using Suc by (cases v) auto
  qed
qed

lemma product_repeat_length: "v \<in> set (product_repeat xs k) \<Longrightarrow> length v = k"
  by (simp add: set_product_repeat)

lemma product_repeat_not_Nil: "xs \<noteq> [] \<Longrightarrow> product_repeat xs k \<noteq> []"
  using length_product_repeat[of xs k] by (metis length_0_conv power_not_zero)

lemma distinct_product_repeat: "distinct xs \<Longrightarrow> distinct (product_repeat xs k)"
proof (induction k)
  case 0
  then show ?case by simp
next
  case (Suc k)
  have "distinct (concat (map (\<lambda>x. map ((#) x) (product_repeat xs k)) xs))"
  proof (rule distinct_concat)
    show "distinct (map (\<lambda>x. map ((#) x) (product_repeat xs k)) xs)"
      using Suc.prems product_repeat_not_Nil[of xs k]
      by (cases "xs = []") (auto simp: distinct_map inj_on_def dest!: map_injective)
  next
    fix ys assume "ys \<in> set (map (\<lambda>x. map ((#) x) (product_repeat xs k)) xs)"
    then show "distinct ys" using Suc by (auto simp: distinct_map)
  next
    fix ys zs
    assume "ys \<in> set (map (\<lambda>x. map ((#) x) (product_repeat xs k)) xs)"
      "zs \<in> set (map (\<lambda>x. map ((#) x) (product_repeat xs k)) xs)" "ys \<noteq> zs"
    then show "set ys \<inter> set zs = {}" by auto
  qed
  then show ?case by simp
qed

lemma product_repeat_pair_Suc:
  "product_repeat [a, b] (Suc k)
     = map ((#) a) (product_repeat [a, b] k) @ map ((#) b) (product_repeat [a, b] k)"
  by simp

subsection \<open>Transposition of rectangular tensors\<close>

lemma transpose_rect:
  assumes "xs \<noteq> []" and "\<forall>row\<in>set xs. length row = k"
  shows "transpose xs = map (\<lambda>i. map (\<lambda>row. row ! i) xs) [0..<k]"
proof -
  have "transpose xs = map (\<lambda>i. map (\<lambda>j. xs ! j ! i) [0..<length xs]) [0..<k]"
    using assms by (intro transpose_rectangle) simp_all
  moreover have "map (\<lambda>j. xs ! j ! i) [0..<length xs] = map (\<lambda>row. row ! i) xs" for i
    by (rule nth_equalityI) simp_all
  ultimately show ?thesis by simp
qed

lemma length_transpose_rect:
  "xs \<noteq> [] \<Longrightarrow> \<forall>row\<in>set xs. length row = k \<Longrightarrow> length (transpose xs) = k"
  using transpose_rect[of xs k] by simp

lemma transpose_rect_rows:
  "xs \<noteq> [] \<Longrightarrow> \<forall>row\<in>set xs. length row = k \<Longrightarrow> \<forall>col\<in>set (transpose xs). length col = length xs"
  using transpose_rect[of xs k] by auto

lemma transpose_transpose_rect:
  assumes "xs \<noteq> []" and "\<forall>row\<in>set xs. length row = k" and "0 < k"
  shows "transpose (transpose xs) = xs"
proof -
  have "map length xs = replicate (length xs) k"
    using assms(2) by (simp add: map_replicate_const[symmetric] cong: map_cong)
  then have "sorted (rev (map length xs))" by simp
  then have "transpose (transpose xs) = takeWhile (\<lambda>x. x \<noteq> []) xs"
    by (rule transpose_transpose)
  moreover have "\<forall>x\<in>set xs. x \<noteq> []" using assms(2,3) by auto
  ultimately show ?thesis by (simp add: takeWhile_eq_all_conv)
qed

subsection \<open>The raw rows\<close>

lemma binary_choices_eq: "binary_choices n = product_repeat [0, 1] (2 ^ n)"
  unfolding binary_choices_def vectors_def
  by (simp add: transpose_transpose_rect[where k = "2 ^ n"] product_repeat_not_Nil product_repeat_length)

lemma transpose_vectors: "0 < n \<Longrightarrow> transpose (vectors n False) = product_repeat [-1, 1] n"
  unfolding vectors_def
  by (simp add: transpose_transpose_rect[where k = n] product_repeat_not_Nil product_repeat_length)

lemma vectors_eq:
  "vectors n False = map (\<lambda>i. map (\<lambda>v. v ! i) (product_repeat [-1, 1] n)) [0..<n]"
  unfolding vectors_def
  by (simp add: transpose_rect[where k = n] product_repeat_not_Nil product_repeat_length)

lemma rows_raw_eq:
  assumes "0 < n"
  shows "rows_raw n = Inr (map (\<lambda>a. map (dot a) (vectors n False)) (product_repeat [0, 1] (2 ^ n)))"
proof -
  have "transpose (transpose (vectors n False)) = vectors n False"
    using assms
    by (intro transpose_transpose_rect[where k = "2 ^ n"])
       (auto simp: vectors_eq length_product_repeat_pair)
  moreover have "list_all (\<lambda>a. length a = length (product_repeat [-1, 1::real] n))
      (product_repeat [0, 1] (2 ^ n))"
    by (simp add: list_all_iff product_repeat_length length_product_repeat_pair)
  ultimately show ?thesis
    using assms by (simp add: rows_raw_def matmul_def binary_choices_eq transpose_vectors)
qed

subsection \<open>Combinations\<close>

lemma length_combinations: "length (combinations xs r) = length xs choose r"
  by (induction xs r rule: combinations.induct) simp_all

lemma combinations_length: "c \<in> set (combinations xs r) \<Longrightarrow> length c = r"
  by (induction xs r arbitrary: c rule: combinations.induct) auto

lemma combinations_subset: "c \<in> set (combinations xs r) \<Longrightarrow> set c \<subseteq> set xs"
  by (induction xs r arbitrary: c rule: combinations.induct) fastforce+

lemma combinations_member:
  "c \<in> set (combinations xs r) \<Longrightarrow> length c = r \<and> set c \<subseteq> set xs"
  using combinations_length combinations_subset by blast

lemma combinations_increasing:
  fixes xs :: "'a::linorder list"
  shows "sorted_wrt (<) xs \<Longrightarrow> c \<in> set (combinations xs r) \<Longrightarrow> sorted_wrt (<) c"
proof (induction xs r arbitrary: c rule: combinations.induct)
  case (3 x xs r)
  from "3.prems" have sx: "sorted_wrt (<) xs" and xlt: "\<forall>y\<in>set xs. x < y" by simp_all
  from "3.prems"(2) consider c' where "c = x # c'" "c' \<in> set (combinations xs r)"
    | "c \<in> set (combinations xs (Suc r))" by auto
  then show ?case
  proof cases
    case 1
    then have "sorted_wrt (<) c'" using "3.IH"(1) sx by simp
    moreover have "set c' \<subseteq> set xs" using 1 combinations_member by blast
    ultimately show ?thesis using 1 xlt by auto
  next
    case 2
    then show ?thesis using "3.IH"(2) sx by simp
  qed
qed simp_all

lemma combinations_complete:
  fixes xs :: "'a::linorder list"
  shows "sorted_wrt (<) xs \<Longrightarrow> length c = r \<Longrightarrow> sorted_wrt (<) c \<Longrightarrow> set c \<subseteq> set xs
     \<Longrightarrow> c \<in> set (combinations xs r)"
proof (induction xs r arbitrary: c rule: combinations.induct)
  case (1 xs)
  then show ?case by simp
next
  case (2 r)
  then show ?case by auto
next
  case (3 x xs r)
  from "3.prems"(2) obtain c0 c' where c: "c = c0 # c'" "length c' = r"
    by (auto simp: length_Suc_conv)
  from "3.prems" have sx: "sorted_wrt (<) xs" and xlt: "\<forall>y\<in>set xs. x < y" by simp_all
  from "3.prems"(3) c have sc': "sorted_wrt (<) c'" and c0lt: "\<forall>y\<in>set c'. c0 < y" by simp_all
  show ?case
  proof (cases "c0 = x")
    case True
    have "set c' \<subseteq> set xs"
    proof
      fix y assume y: "y \<in> set c'"
      then have "x < y" using c0lt True by simp
      moreover have "y \<in> insert x (set xs)" using "3.prems"(4) c y by auto
      ultimately show "y \<in> set xs" by auto
    qed
    then have "c' \<in> set (combinations xs r)" using "3.IH"(1) sx c(2) sc' by blast
    then show ?thesis using c True by simp
  next
    case False
    then have c0in: "c0 \<in> set xs" using "3.prems"(4) c by auto
    have "set c \<subseteq> set xs"
    proof
      fix y assume y: "y \<in> set c"
      have "x < c0" using xlt c0in by simp
      moreover have "y = c0 \<or> c0 < y" using y c c0lt by auto
      ultimately have "x < y" by (auto intro: less_trans)
      then show "y \<in> set xs" using "3.prems"(4) y by auto
    qed
    then have "c \<in> set (combinations xs (Suc r))" using "3.IH"(2) sx "3.prems"(2,3) by blast
    then show ?thesis by simp
  qed
qed

lemma distinct_combinations: "distinct xs \<Longrightarrow> distinct (combinations xs r)"
proof (induction xs r rule: combinations.induct)
  case (3 x xs r)
  have "\<And>c. c \<in> set (combinations xs (Suc r)) \<Longrightarrow> x \<notin> set c"
    using combinations_subset "3.prems" by fastforce
  then have "set (map ((#) x) (combinations xs r)) \<inter> set (combinations xs (Suc r)) = {}"
    by fastforce
  moreover have "distinct (map ((#) x) (combinations xs r))"
    using 3 by (simp add: distinct_map)
  ultimately show ?case using 3 by simp
qed simp_all

lemma combinations_lex_sorted:
  fixes xs :: "'a::linorder list"
  shows "sorted_wrt (<) xs \<Longrightarrow> sorted_wrt (<) (combinations xs r)"
proof (induction xs r rule: combinations.induct)
  case (3 x xs r)
  from "3.prems" have sx: "sorted_wrt (<) xs" and xlt: "\<forall>y\<in>set xs. x < y" by simp_all
  have cross: "x # a < b" if "b \<in> set (combinations xs (Suc r))" for a b
  proof -
    from combinations_member[OF that] obtain y b' where "b = y # b'" "y \<in> set xs"
      by (cases b) auto
    then show ?thesis using xlt by simp
  qed
  have "sorted_wrt (<) (map ((#) x) (combinations xs r))"
    using "3.IH"(1) sx by (simp add: sorted_wrt_map)
  then show ?case using "3.IH"(2) sx cross by (auto simp: sorted_wrt_append)
qed simp_all

lemma combinations_too_many: "length xs < r \<Longrightarrow> combinations xs r = []"
  using length_combinations[of xs r] by (simp add: binomial_eq_0)

subsection \<open>Norms and normalisation\<close>

lemma norm2_eq_0_iff: "norm2 row = 0 \<longleftrightarrow> (\<forall>x\<in>set row. x = 0)"
proof -
  have "sum_list (map (\<lambda>x. x * x) row) = 0 \<longleftrightarrow> (\<forall>y\<in>set (map (\<lambda>x. x * x) row). y = 0)"
    by (rule sum_list_nonneg_eq_0_iff) auto
  then show ?thesis by (auto simp: norm2_def)
qed

lemma sum_squares_nonneg: "0 \<le> sum_list (map (\<lambda>x. x * x) (row :: real list))"
  by (rule sum_list_nonneg) auto

lemma norm2_nonneg: "0 \<le> norm2 row"
  by (simp add: norm2_def sum_squares_nonneg)

lemma normalize_row_nonzero:
  "norm2 row \<noteq> 0 \<Longrightarrow> normalize_row row = map (\<lambda>x. Fin (x / norm2 row)) row"
  by (simp add: normalize_row_def fdiv_def)

lemma normalize_row_zero:
  "norm2 row = 0 \<Longrightarrow> normalize_row row = map (\<lambda>x. NaN) row"
  by (simp add: normalize_row_def fdiv_def norm2_eq_0_iff)

lemma all_nan_iff: "list_all isnan (normalize_row row) \<longleftrightarrow> norm2 row = 0"
proof (cases "norm2 row = 0")
  case True
  then show ?thesis by (simp add: normalize_row_zero list_all_iff isnan_def)
next
  case False
  then obtain x where "x \<in> set row" by (auto simp: norm2_eq_0_iff)
  then show ?thesis using False
    by (auto simp: normalize_row_nonzero list_all_iff isnan_def)
qed

lemma drop_nan_rows_normalize:
  "drop_nan_rows (map normalize_row rows)
     = map (\<lambda>row. map (\<lambda>x. Fin (x / norm2 row)) row) (filter (\<lambda>row. norm2 row \<noteq> 0) rows)"
  by (induction rows) (simp_all add: drop_nan_rows_def all_nan_iff normalize_row_nonzero)

lemma row_to_reals_Fin: "row_to_reals (map Fin xs) = Inr xs"
  by (induction xs) simp_all

lemma rows_to_reals_Fin: "rows_to_reals (map (\<lambda>row. map Fin (f row)) rows) = Inr (map f rows)"
  by (induction rows) (simp_all add: row_to_reals_Fin)

lemma rows_to_reals_normalized:
  "rows_to_reals (drop_nan_rows (map normalize_row rows))
     = Inr (map (\<lambda>row. map (\<lambda>x. x / norm2 row) row) (filter (\<lambda>row. norm2 row \<noteq> 0) rows))"
proof -
  have "map (\<lambda>row. map (\<lambda>x. Fin (x / norm2 row)) row) rs
      = map (\<lambda>row. map Fin (map (\<lambda>x. x / norm2 row) row)) rs" for rs :: mat
    by simp
  then show ?thesis
    by (simp only: drop_nan_rows_normalize rows_to_reals_Fin)
qed

lemma unique_normalized_rows_eq:
  assumes "rows_raw n = Inr rows"
  shows "unique_normalized_rows n
     = Inr (unique_dim0 (map (\<lambda>row. map (\<lambda>x. x / norm2 row) row)
         (filter (\<lambda>row. norm2 row \<noteq> 0) rows)))"
  using assms
  by (simp add: unique_normalized_rows_def normalized_rows_def normalized_rows_with_nans_def
      rows_to_reals_normalized)

lemma set_unique_dim0 [simp]: "set (unique_dim0 t) = set t"
  by (simp add: unique_dim0_def)

lemma norm2_unit:
  assumes "norm2 row \<noteq> 0"
  shows "norm2 (map (\<lambda>x. x / norm2 row) row) = 1"
proof -
  let ?s = "sum_list (map (\<lambda>x. x * x) row)"
  have pos: "0 < ?s"
    using assms norm2_nonneg[of row] by (simp add: norm2_def less_le)
  have "sum_list (map (\<lambda>x. (x / norm2 row) * (x / norm2 row)) row)
      = sum_list (map (\<lambda>x. (x * x) * (1 / ?s)) row)"
    using pos by (intro arg_cong[where f = sum_list] map_cong) (simp_all add: norm2_def)
  also have "\<dots> = ?s * (1 / ?s)"
    by (simp only: sum_list_mult_const)
  also have "\<dots> = 1" using pos by simp
  finally show ?thesis by (simp add: norm2_def comp_def)
qed

subsection \<open>Unique rows\<close>

lemma distinct_remdups_adj_sorted:
  fixes xs :: "'a::linorder list"
  shows "sorted xs \<Longrightarrow> distinct (remdups_adj xs)"
proof (induction xs rule: remdups_adj.induct)
  case (3 x y xs)
  show ?case
  proof (cases "x = y")
    case True
    then show ?thesis using 3 by simp
  next
    case False
    then have "x \<notin> set (y # xs)" using "3.prems" by auto
    then show ?thesis using False 3 by simp
  qed
qed simp_all

lemma distinct_unique_dim0: "distinct (unique_dim0 t)"
  by (simp add: unique_dim0_def distinct_remdups_adj_sorted)

lemma sorted_unique_dim0: "sorted (unique_dim0 t)"
  by (simp add: unique_dim0_def)

lemma length_unique_dim0: "length (unique_dim0 t) = card (set t)"
  using distinct_card[OF distinct_unique_dim0, of t] by simp

subsection \<open>The first nonzero entry\<close>

lemma filter_upt_eq_Cons:
  assumes "filter P [0..<n] = i # rest"
  shows "i < n \<and> P i \<and> (\<forall>j<i. \<not> P j)"
proof -
  from assms obtain us vs where split: "[0..<n] = us @ i # vs"
    and us: "\<forall>u\<in>set us. \<not> P u" and Pi: "P i"
    by (auto simp: filter_eq_Cons_iff)
  have "i \<in> set [0..<n]" by (simp add: split)
  then have "i < n" by simp
  have "sorted_wrt (<) (us @ i # vs)" using split sorted_wrt_upt[of 0 n] by simp
  then have above: "\<forall>v\<in>set vs. i < v" by (auto simp: sorted_wrt_append)
  have "\<not> P j" if "j < i" for j
  proof -
    have "j \<in> set (us @ i # vs)" using that \<open>i < n\<close> split[symmetric] by simp
    then have "j \<in> set us" using that above by auto
    then show ?thesis using us by simp
  qed
  then show ?thesis using \<open>i < n\<close> Pi by simp
qed

lemma first_non_zero_index_Inr:
  "first_non_zero_index row = Inr i \<Longrightarrow> i < length row \<and> row ! i \<noteq> 0 \<and> (\<forall>j<i. row ! j = 0)"
  unfolding first_non_zero_index_def
  by (auto split: list.splits dest!: filter_upt_eq_Cons)

lemma first_non_zero_index_Inl:
  "first_non_zero_index row = Inl e \<Longrightarrow> \<forall>x\<in>set row. x = 0"
  unfolding first_non_zero_index_def
  by (auto split: list.splits simp: filter_empty_conv in_set_conv_nth)

lemma first_non_zero_index_exists:
  assumes "\<exists>x\<in>set row. x \<noteq> 0"
  shows "\<exists>i. first_non_zero_index row = Inr i"
proof (cases "first_non_zero_index row")
  case (Inl e)
  then show ?thesis using assms first_non_zero_index_Inl by blast
next
  case (Inr i)
  then show ?thesis by simp
qed

lemma fix_row_Inr:
  "fix_row u = Inr v \<longleftrightarrow>
     (\<exists>i. first_non_zero_index u = Inr i \<and> v = map (\<lambda>x. x * sgn (u ! i)) u)"
  by (auto simp: fix_row_def bind_err_eq_Inr)

lemma fix_rows_loop_Inr:
  "fix_rows_loop U = Inr V \<longleftrightarrow> list_all2 (\<lambda>u v. fix_row u = Inr v) U V"
proof (induction U arbitrary: V)
  case Nil
  then show ?case by auto
next
  case (Cons u U)
  show ?case
    by (cases V) (auto simp: bind_err_eq_Inr Cons.IH)
qed

lemma fix_rows_loop_total:
  assumes "\<forall>u\<in>set U. \<exists>x\<in>set u. x \<noteq> 0"
  shows "\<exists>V. fix_rows_loop U = Inr V \<and> length V = length U"
  using assms
proof (induction U)
  case Nil
  then show ?case by simp
next
  case (Cons u U)
  then obtain V where V: "fix_rows_loop U = Inr V" "length V = length U" by auto
  from Cons.prems obtain i where "first_non_zero_index u = Inr i"
    using first_non_zero_index_exists[of u] by auto
  then show ?case using V by (simp add: fix_row_def)
qed

lemma fix_rows_loop_member:
  assumes "fix_rows_loop U = Inr V" and "v \<in> set V"
  shows "\<exists>u\<in>set U. fix_row u = Inr v"
proof -
  from assms(1) have all2: "list_all2 (\<lambda>u v. fix_row u = Inr v) U V"
    by (simp add: fix_rows_loop_Inr)
  from assms(2) obtain k where k: "k < length V" "v = V ! k"
    by (auto simp: in_set_conv_nth)
  from all2 k have "fix_row (U ! k) = Inr v" "k < length U"
    by (simp_all add: list_all2_conv_all_nth)
  then show ?thesis using nth_mem by blast
qed

lemma fix_row_sign_canonical:
  assumes "fix_row u = Inr v"
  shows "\<exists>i<length v. 0 < v ! i \<and> (\<forall>j<i. v ! j = 0)"
proof -
  from assms obtain i where i: "first_non_zero_index u = Inr i"
    and v: "v = map (\<lambda>x. x * sgn (u ! i)) u" by (auto simp: fix_row_Inr)
  from first_non_zero_index_Inr[OF i]
  have il: "i < length u" and nz: "u ! i \<noteq> 0" and z: "\<forall>j<i. u ! j = 0" by simp_all
  have "v ! i = \<bar>u ! i\<bar>" using il v by (simp add: abs_sgn)
  then have "0 < v ! i" using nz by simp
  moreover have "\<forall>j<i. v ! j = 0" using z il v by simp
  ultimately show ?thesis using il v by auto
qed


lemma sign_canonical_no_negative:
  fixes u v :: "real list"
  assumes u: "\<exists>i<length u. 0 < u ! i \<and> (\<forall>j<i. u ! j = 0)"
    and v: "\<exists>i<length v. 0 < v ! i \<and> (\<forall>j<i. v ! j = 0)"
  shows "v \<noteq> map uminus u"
proof
  assume eq: "v = map uminus u"
  from u obtain i where i: "i < length u" "0 < u ! i" "\<forall>j<i. u ! j = 0" by auto
  from v obtain k where k: "k < length v" "0 < v ! k" "\<forall>j<k. v ! j = 0" by auto
  have vi: "v ! i = - (u ! i)" using eq i(1) by simp
  have vk: "v ! k = - (u ! k)" using eq k(1) by simp
  consider "k < i" | "k = i" | "i < k" by linarith
  then show False
  proof cases
    case 1
    then show ?thesis using i(3) vk k(2) by simp
  next
    case 2
    then show ?thesis using vi i(2) k(2) by simp
  next
    case 3
    then show ?thesis using k(3) vi i(2) by auto
  qed
qed

subsection \<open>A raw row that is not zero\<close>

lemma dot_replicate_zero: "dot (replicate k 0) cs = 0"
proof (induction k arbitrary: cs)
  case 0
  then show ?case by (simp add: dot_def)
next
  case (Suc k)
  then show ?case by (cases cs) (simp_all add: dot_def)
qed

lemma dot_first_unit: "dot (1 # replicate k 0) (c # cs) = c"
  using dot_replicate_zero[of k cs] by (simp add: dot_def)

lemma rows_raw_has_nonzero:
  assumes "0 < n" and "rows_raw n = Inr rows"
  shows "\<exists>row\<in>set rows. norm2 row \<noteq> 0"
proof -
  let ?P = "product_repeat [-1, 1::real] n"
  let ?a = "1 # replicate (2 ^ n - 1) (0::real)"
  obtain p0 P' where P: "?P = p0 # P'"
    using product_repeat_not_Nil[of "[-1, 1::real]" n] by (cases ?P) auto
  have p0: "p0 \<in> set ?P" by (simp add: P)
  then have len: "length p0 = n" and ent: "set p0 \<subseteq> {-1, 1}"
    by (auto simp: set_product_repeat)
  have a: "?a \<in> set (product_repeat [0, 1] (2 ^ n))"
    by (auto simp: set_product_repeat)
  have "map (dot ?a) (vectors n False) = map (\<lambda>i. p0 ! i) [0..<n]"
    by (simp add: vectors_eq P dot_first_unit)
  also have "\<dots> = p0" using len map_nth[of p0] by simp
  finally have "p0 \<in> set rows"
    using a assms by (auto simp: rows_raw_eq)
  moreover have "p0 ! 0 \<in> set p0" using len assms(1) by simp
  then have "p0 ! 0 \<noteq> 0" using ent by auto
  then have "norm2 p0 \<noteq> 0" using \<open>p0 ! 0 \<in> set p0\<close> by (auto simp: norm2_eq_0_iff)
  ultimately show ?thesis by blast
qed

lemma rows_raw_length:
  assumes "0 < n" and "rows_raw n = Inr rows" and "row \<in> set rows"
  shows "length row = n"
  using assms by (auto simp: rows_raw_eq vectors_eq)

subsection \<open>The stages of the candidate rows\<close>

lemma candidate_rows_stages:
  assumes "0 < n"
  shows "\<exists>rows U V. rows_raw n = Inr rows
     \<and> U = unique_dim0 (map (\<lambda>row. map (\<lambda>x. x / norm2 row) row) (filter (\<lambda>row. norm2 row \<noteq> 0) rows))
     \<and> unique_normalized_rows n = Inr U \<and> U \<noteq> []
     \<and> (\<forall>u\<in>set U. norm2 u = 1 \<and> length u = n)
     \<and> fix_rows_loop U = Inr V \<and> V \<noteq> []
     \<and> candidate_rows n = Inr (unique_dim0 V)"
proof -
  obtain rows where rows: "rows_raw n = Inr rows" using rows_raw_eq[OF assms] by blast
  define U where "U = unique_dim0 (map (\<lambda>row. map (\<lambda>x. x / norm2 row) row)
      (filter (\<lambda>row. norm2 row \<noteq> 0) rows))"
  have Ueq: "unique_normalized_rows n = Inr U"
    unfolding U_def by (rule unique_normalized_rows_eq[OF rows])
  have "set U \<noteq> {}" using rows_raw_has_nonzero[OF assms rows] by (auto simp: U_def)
  then have Une: "U \<noteq> []" by auto
  have Unorm: "\<forall>u\<in>set U. norm2 u = 1 \<and> length u = n"
    using rows_raw_length[OF assms rows] by (auto simp: U_def norm2_unit)
  have "\<forall>u\<in>set U. \<exists>x\<in>set u. x \<noteq> 0"
  proof
    fix u assume "u \<in> set U"
    then have "norm2 u \<noteq> 0" using Unorm by simp
    then show "\<exists>x\<in>set u. x \<noteq> 0" by (simp add: norm2_eq_0_iff)
  qed
  from fix_rows_loop_total[OF this] obtain V where V: "fix_rows_loop U = Inr V" "length V = length U"
    by blast
  then have Vne: "V \<noteq> []" using Une by auto
  have "candidate_rows n = Inr (unique_dim0 V)"
    using Ueq V Vne by (simp add: candidate_rows_def fix_row_signs_def)
  then show ?thesis using rows U_def Ueq Une Unorm V(1) Vne by blast
qed

subsection \<open>The model at \<open>n = 1\<close>\<close>

lemma vectors_1: "vectors (Suc 0) False = [[-1, 1]]"
  by (simp add: vectors_def)

lemma rows_raw_1: "rows_raw (Suc 0) = Inr [[0], [1], [-1], [0]]"
  by (simp add: rows_raw_eq vectors_1 numeral_2_eq_2 dot_def)

lemma normalized_rows_1: "normalized_rows (Suc 0) = Inr [[Fin 1], [Fin (-1)]]"
  by (simp add: normalized_rows_def normalized_rows_with_nans_def rows_raw_1 drop_nan_rows_def
      normalize_row_def norm2_def fdiv_def isnan_def)

lemma unique_normalized_rows_1: "unique_normalized_rows (Suc 0) = Inr [[-1], [1]]"
  by (simp add: unique_normalized_rows_def normalized_rows_1 unique_dim0_def)

lemma candidate_rows_1: "candidate_rows (Suc 0) = Inr [[1]]"
  by (simp add: candidate_rows_def unique_normalized_rows_1 fix_row_signs_def fix_row_def
      first_non_zero_index_def unique_dim0_def)

lemma binary_vectors_1: "binary_vectors (Suc 0) = [[-1]]"
  by (simp add: binary_vectors_def vectors_1)

lemma beta_1: "beta [[1]] [[-1]] = Inr (Fin 1)"
  by (simp add: beta_def matmul_def max_dim0_def mean_def dot_def)

lemma search_1_1: "search [[1]] [[-1]] (Suc 0) = Inr (Fin 1, Some [[1]])"
  by (simp add: search_def index_rows_def beta_1)

lemma sequential_search_1_2: "sequential_search (Suc 0) 2 = Inr (Fin 0, None)"
  by (simp add: sequential_search_def candidate_rows_1 search_def binary_vectors_1 numeral_2_eq_2)

lemma sequential_search_1_0: "sequential_search (Suc 0) 0 = Inl IndexError"
  by (simp add: sequential_search_def candidate_rows_1 search_def binary_vectors_1 index_rows_def)

subsection \<open>The evaluation vectors\<close>

lemma binary_vectors_Suc:
  "binary_vectors (Suc m) = transpose (map ((#) (-1)) (product_repeat [-1, 1] m))"
proof -
  let ?Q = "product_repeat [-1, 1::real] m"
  let ?H = "map ((#) (-1)) ?Q"
  have H: "?H \<noteq> []" "\<forall>row\<in>set ?H. length row = Suc m"
    by (auto simp: product_repeat_not_Nil product_repeat_length)
  have "take (2 ^ m) (product_repeat [-1, 1::real] (Suc m)) = ?H"
    by (simp add: length_product_repeat_pair)
  then have "take (2 ^ m) (map f (product_repeat [-1, 1::real] (Suc m))) = map f ?H" for f :: "real list \<Rightarrow> real"
    by (simp only: take_map)
  then have "binary_vectors (Suc m) = map (\<lambda>i. map (\<lambda>v. v ! i) ?H) [0..<Suc m]"
    by (simp add: binary_vectors_def vectors_eq del: product_repeat.simps upt_Suc)
  also have "\<dots> = transpose ?H"
    using transpose_rect[OF H] by simp
  finally show ?thesis .
qed

lemma binary_vectors_columns:
  "transpose (binary_vectors (Suc m)) = map ((#) (-1)) (product_repeat [-1, 1] m)"
  unfolding binary_vectors_Suc
  by (rule transpose_transpose_rect[where k = "Suc m"])
     (auto simp: product_repeat_not_Nil product_repeat_length)

lemma length_binary_vectors: "length (binary_vectors n) = n"
  by (simp add: binary_vectors_def vectors_eq)

lemma sign_vector_uminus:
  "v \<in> set (product_repeat [-1, 1::real] k) \<Longrightarrow> map uminus v \<in> set (product_repeat [-1, 1] k)"
  by (auto simp: set_product_repeat)

subsection \<open>The objective\<close>

lemma dot_uminus_left: "dot (map uminus a) c = - dot a c"
proof (induction a arbitrary: c)
  case Nil
  then show ?case by (simp add: dot_def)
next
  case (Cons x a)
  then show ?case by (cases c) (simp_all add: dot_def)
qed

lemma dot_uminus_right: "dot a (map uminus c) = - dot a c"
proof (induction a arbitrary: c)
  case Nil
  then show ?case by (simp add: dot_def)
next
  case (Cons x a)
  then show ?case by (cases c) (simp_all add: dot_def)
qed

lemma map_nth_fun: "map (\<lambda>j. f (xs ! j)) [0..<length xs] = map f xs"
  by (rule nth_equalityI) simp_all

lemma max_dim0_abs_matmul:
  assumes "A \<noteq> []"
  shows "max_dim0 (map (map abs) (map (\<lambda>a. map (dot a) C) A))
     = Inr (map (\<lambda>c. Max (set (map (\<lambda>a. \<bar>dot a c\<bar>) A))) C)"
proof -
  let ?B = "map (map abs) (map (\<lambda>a. map (dot a) C) A)"
  have ne: "?B \<noteq> []" using assms by simp
  have rect: "\<forall>row\<in>set ?B. length row = length C" by auto
  have "transpose ?B = map (\<lambda>j. map (\<lambda>row. row ! j) ?B) [0..<length C]"
    by (rule transpose_rect[OF ne rect])
  also have "\<dots> = map (\<lambda>j. map (\<lambda>a. \<bar>dot a (C ! j)\<bar>) A) [0..<length C]"
    by (simp add: comp_def)
  also have "\<dots> = map (\<lambda>c. map (\<lambda>a. \<bar>dot a c\<bar>) A) C"
    by (rule map_nth_fun)
  finally have "transpose ?B = map (\<lambda>c. map (\<lambda>a. \<bar>dot a c\<bar>) A) C" .
  then show ?thesis using ne by (simp add: max_dim0_def comp_def)
qed

lemma beta_eq:
  "beta A bvs =
     (if \<not> list_all (\<lambda>a. length a = length bvs) A then Inl RuntimeError
      else if A = [] then Inl IndexError
      else Inr (mean (map (\<lambda>c. Max (set (map (\<lambda>a. \<bar>dot a c\<bar>) A))) (transpose bvs))))"
proof (cases "list_all (\<lambda>a. length a = length bvs) A")
  case False
  then show ?thesis by (simp add: beta_def matmul_def)
next
  case shapes: True
  show ?thesis
  proof (cases "A = []")
    case True
    then show ?thesis by (simp add: beta_def matmul_def max_dim0_def)
  next
    case False
    have "beta A bvs = bind_err (max_dim0 (map (map abs) (map (\<lambda>a. map (dot a) (transpose bvs)) A)))
        (\<lambda>m. Inr (mean m))"
      using shapes by (simp add: beta_def matmul_def del: map_map)
    then show ?thesis using shapes False
      by (simp only: max_dim0_abs_matmul[OF False] bind_err_Inr if_False if_True not_True_eq_False)
  qed
qed

lemma beta_example: "beta [[1, 0], [0, 1]] (binary_vectors 2) = Inr (Fin 1)"
  by (simp add: beta_eq numeral_2_eq_2 binary_vectors_columns length_binary_vectors mean_def dot_def)

subsection \<open>Sign vectors detect a nonzero row\<close>

lemma dot_Cons: "dot (x # a) (y # c) = x * y + dot a c"
  by (simp add: dot_def)

lemma sign_vectors_span:
  "length a = k \<Longrightarrow> \<forall>c\<in>set (product_repeat [-1, 1] k). dot a c = 0 \<Longrightarrow> \<forall>x\<in>set a. x = 0"
proof (induction k arbitrary: a)
  case 0
  then show ?case by simp
next
  case (Suc k)
  let ?Q = "product_repeat [-1, 1::real] k"
  obtain x a' where a: "a = x # a'" "length a' = k"
    using Suc.prems(1) by (cases a) auto
  have both: "- x + dot a' c = 0 \<and> x + dot a' c = 0" if "c \<in> set ?Q" for c
  proof -
    have "-1 # c \<in> set (product_repeat [-1, 1] (Suc k))" "1 # c \<in> set (product_repeat [-1, 1] (Suc k))"
      using that by simp_all
    then have "dot a (-1 # c) = 0" "dot a (1 # c) = 0" using Suc.prems(2) by blast+
    then show ?thesis by (simp add: a dot_Cons)
  qed
  have "dot a' c = 0" if "c \<in> set ?Q" for c
    using both[OF that] by linarith
  then have rest: "\<forall>y\<in>set a'. y = 0" using Suc.IH[OF a(2)] by blast
  obtain c0 where "c0 \<in> set ?Q"
    using product_repeat_not_Nil[of "[-1, 1::real]" k] by (cases ?Q) auto
  from both[OF this] have "x = 0" by linarith
  then show ?case using rest by (simp add: a)
qed

lemma half_set_detects:
  assumes "length a = Suc m" and "\<exists>x\<in>set a. x \<noteq> 0"
  shows "\<exists>c\<in>set (map ((#) (-1)) (product_repeat [-1, 1] m)). dot a c \<noteq> 0"
proof (rule ccontr)
  let ?Q = "product_repeat [-1, 1::real] m"
  assume "\<not> ?thesis"
  then have z: "dot a (-1 # c') = 0" if "c' \<in> set ?Q" for c'
    using that by simp
  have "dot a c = 0" if "c \<in> set (product_repeat [-1, 1] (Suc m))" for c
  proof -
    from that obtain x c' where c: "c = x # c'" "x = -1 \<or> x = 1" "c' \<in> set ?Q"
      by auto
    from c(2) show ?thesis
    proof
      assume "x = -1"
      then show ?thesis using z c by simp
    next
      assume x: "x = 1"
      have "dot a (-1 # map uminus c') = 0" using z sign_vector_uminus[OF c(3)] by simp
      moreover have "-1 # map uminus c' = map uminus c" by (simp add: c x)
      ultimately show ?thesis by (simp add: dot_uminus_right)
    qed
  qed
  then have "\<forall>x\<in>set a. x = 0" using sign_vectors_span[OF assms(1)] by blast
  then show False using assms(2) by blast
qed

subsection \<open>The objective on the evaluation vectors\<close>

lemma sum_list_pos_real:
  fixes xs :: "real list"
  assumes "\<forall>x\<in>set xs. 0 \<le> x" and "\<exists>x\<in>set xs. 0 < x"
  shows "0 < sum_list xs"
proof -
  have "0 \<le> sum_list xs" using assms(1) by (simp add: sum_list_nonneg)
  moreover have "sum_list xs \<noteq> 0"
    using assms sum_list_nonneg_eq_0_iff[of xs] by fastforce
  ultimately show ?thesis by simp
qed

lemma beta_binary_vectors:
  assumes "A \<noteq> []" and "\<forall>a\<in>set A. length a = Suc m"
  shows "beta A (binary_vectors (Suc m))
     = Inr (Fin (sum_list (map (\<lambda>c. Max (set (map (\<lambda>a. \<bar>dot a c\<bar>) A)))
          (map ((#) (-1)) (product_repeat [-1, 1] m))) / 2 ^ m))"
  using assms
  by (simp add: beta_eq list_all_iff length_binary_vectors binary_vectors_columns mean_def
      product_repeat_not_Nil length_product_repeat_pair del: map_map)

lemma beta_binary_vectors_pos:
  assumes "A \<noteq> []" and "\<forall>a\<in>set A. length a = Suc m \<and> (\<exists>x\<in>set a. x \<noteq> 0)"
  shows "\<exists>b. beta A (binary_vectors (Suc m)) = Inr (Fin b) \<and> 0 < b"
proof -
  let ?H = "map ((#) (-1)) (product_repeat [-1, 1::real] m)"
  let ?f = "\<lambda>c. Max (set (map (\<lambda>a. \<bar>dot a c\<bar>) A))"
  obtain a where a: "a \<in> set A" using assms(1) by (cases A) auto
  have ge: "\<bar>dot a' c\<bar> \<le> ?f c" if "a' \<in> set A" for a' c
    using that by (intro Max_ge) auto
  have nonneg: "\<forall>y\<in>set (map ?f ?H). 0 \<le> y"
  proof
    fix y assume "y \<in> set (map ?f ?H)"
    then obtain c where "y = ?f c" by auto
    then show "0 \<le> y" using ge[OF a, of c] by linarith
  qed
  from half_set_detects[of a m] a assms(2) obtain c where c: "c \<in> set ?H" "dot a c \<noteq> 0"
    by blast
  then have fpos: "0 < ?f c" using ge[OF a, of c] by linarith
  have "?f c \<in> ?f ` set ?H" using c(1) by (rule imageI)
  then have "\<exists>y\<in>set (map ?f ?H). 0 < y" using fpos unfolding set_map by blast
  from sum_list_pos_real[OF nonneg this]
  have "0 < sum_list (map ?f ?H) / 2 ^ m" by simp
  moreover have "\<forall>a\<in>set A. length a = Suc m" using assms(2) by blast
  ultimately show ?thesis using beta_binary_vectors[OF assms(1)] by blast
qed

subsection \<open>The loop keeps the first maximum\<close>

lemma search_loop_first_max:
  assumes "\<forall>c\<in>set cs. index_rows R c = Inr (sel c) \<and> beta (sel c) bvs = Inr (Fin (g c))"
  shows "\<exists>M best. search_loop R bvs cs (Fin m0, b0) = Inr (Fin M, best)
     \<and> m0 \<le> M \<and> (\<forall>c\<in>set cs. g c \<le> M)
     \<and> ((M = m0 \<and> best = b0)
        \<or> (m0 < M \<and> (\<exists>pre c post. cs = pre @ c # post \<and> g c = M \<and> best = Some (sel c)
              \<and> (\<forall>c'\<in>set pre. g c' < M))))"
  using assms
proof (induction cs arbitrary: m0 b0)
  case Nil
  then show ?case by simp
next
  case (Cons c cs)
  from Cons.prems have c: "index_rows R c = Inr (sel c)" "beta (sel c) bvs = Inr (Fin (g c))"
    and rest: "\<forall>c\<in>set cs. index_rows R c = Inr (sel c) \<and> beta (sel c) bvs = Inr (Fin (g c))"
    by simp_all
  show ?case
  proof (cases "m0 < g c")
    case True
    then have step: "search_loop R bvs (c # cs) (Fin m0, b0)
        = search_loop R bvs cs (Fin (g c), Some (sel c))"
      by (simp add: c)
    from Cons.IH[OF rest, of "g c" "Some (sel c)"] obtain M best where
      res: "search_loop R bvs cs (Fin (g c), Some (sel c)) = Inr (Fin M, best)"
      and ge: "g c \<le> M" and ub: "\<forall>c\<in>set cs. g c \<le> M"
      and alt: "(M = g c \<and> best = Some (sel c))
        \<or> (g c < M \<and> (\<exists>pre c' post. cs = pre @ c' # post \<and> g c' = M \<and> best = Some (sel c')
              \<and> (\<forall>c''\<in>set pre. g c'' < M)))"
      by blast
    have lt: "m0 < M" using True ge by simp
    from alt have "\<exists>pre c' post. c # cs = pre @ c' # post \<and> g c' = M \<and> best = Some (sel c')
        \<and> (\<forall>c''\<in>set pre. g c'' < M)"
    proof
      assume "M = g c \<and> best = Some (sel c)"
      then have "c # cs = [] @ c # cs \<and> g c = M \<and> best = Some (sel c) \<and> (\<forall>c''\<in>set []. g c'' < M)"
        by simp
      then show ?thesis by blast
    next
      assume "g c < M \<and> (\<exists>pre c' post. cs = pre @ c' # post \<and> g c' = M \<and> best = Some (sel c')
              \<and> (\<forall>c''\<in>set pre. g c'' < M))"
      then obtain pre c' post where "g c < M" "cs = pre @ c' # post" "g c' = M"
        "best = Some (sel c')" "\<forall>c''\<in>set pre. g c'' < M" by blast
      then have "c # cs = (c # pre) @ c' # post \<and> g c' = M \<and> best = Some (sel c')
          \<and> (\<forall>c''\<in>set (c # pre). g c'' < M)" by simp
      then show ?thesis by blast
    qed
    then show ?thesis using step res ge ub lt by auto
  next
    case False
    then have step: "search_loop R bvs (c # cs) (Fin m0, b0) = search_loop R bvs cs (Fin m0, b0)"
      by (simp add: c)
    from Cons.IH[OF rest, of m0 b0] obtain M best where
      res: "search_loop R bvs cs (Fin m0, b0) = Inr (Fin M, best)"
      and ge: "m0 \<le> M" and ub: "\<forall>c\<in>set cs. g c \<le> M"
      and alt: "(M = m0 \<and> best = b0)
        \<or> (m0 < M \<and> (\<exists>pre c' post. cs = pre @ c' # post \<and> g c' = M \<and> best = Some (sel c')
              \<and> (\<forall>c''\<in>set pre. g c'' < M)))"
      by blast
    have cle: "g c \<le> M" using False ge by simp
    from alt have "(M = m0 \<and> best = b0)
        \<or> (m0 < M \<and> (\<exists>pre c' post. c # cs = pre @ c' # post \<and> g c' = M \<and> best = Some (sel c')
              \<and> (\<forall>c''\<in>set pre. g c'' < M)))"
    proof
      assume "M = m0 \<and> best = b0"
      then show ?thesis by simp
    next
      assume "m0 < M \<and> (\<exists>pre c' post. cs = pre @ c' # post \<and> g c' = M \<and> best = Some (sel c')
              \<and> (\<forall>c''\<in>set pre. g c'' < M))"
      then obtain pre c' post where "m0 < M" "cs = pre @ c' # post" "g c' = M"
        "best = Some (sel c')" "\<forall>c''\<in>set pre. g c'' < M" by blast
      then have "m0 < M \<and> c # cs = (c # pre) @ c' # post \<and> g c' = M \<and> best = Some (sel c')
          \<and> (\<forall>c''\<in>set (c # pre). g c'' < M)" using False by simp
      then show ?thesis by blast
    qed
    then show ?thesis using step res ge ub cle by auto
  qed
qed

lemma index_rows_combination:
  assumes "c \<in> set (combinations [0..<length R] r)" and "1 \<le> r"
  shows "index_rows R c = Inr (map ((!) R) c)" and "map ((!) R) c \<noteq> []"
    and "set (map ((!) R) c) \<subseteq> set R"
proof -
  from combinations_member[OF assms(1)] have len: "length c = r" and sub: "set c \<subseteq> {0..<length R}"
    by simp_all
  from len assms(2) have ne: "c \<noteq> []" by auto
  from sub have "list_all (\<lambda>i. i < length R) c" by (auto simp: list_all_iff)
  then show "index_rows R c = Inr (map ((!) R) c)" using ne by (simp add: index_rows_def)
  show "map ((!) R) c \<noteq> []" using ne by simp
  show "set (map ((!) R) c) \<subseteq> set R" using sub by auto
qed

lemma beta_minus_1: "beta [[-1]] [[-1]] = Inr (Fin 1)"
  by (simp add: beta_def matmul_def max_dim0_def mean_def dot_def)

lemma search_tie: "search [[1], [-1]] [[-1]] (Suc 0) = Inr (Fin 1, Some [[1]])"
  by (simp add: search_def index_rows_def beta_1 beta_minus_1)

subsection \<open>Counting the candidate rows\<close>

lemma length_remdups_by:
  assumes "\<forall>x\<in>set xs. \<forall>y\<in>set xs. eq x y \<longleftrightarrow> f x = f y"
  shows "length (remdups_by eq xs) = card (f ` set xs)"
  using assms
proof (induction xs)
  case Nil
  then show ?case by simp
next
  case (Cons x xs)
  then have IH: "length (remdups_by eq xs) = card (f ` set xs)" by simp
  have ex: "list_ex (eq x) xs \<longleftrightarrow> f x \<in> f ` set xs"
    using Cons.prems by (auto simp: list_ex_iff)
  show ?case
  proof (cases "list_ex (eq x) xs")
    case True
    then have "insert (f x) (f ` set xs) = f ` set xs" using ex by auto
    then show ?thesis using True IH by simp
  next
    case False
    then have "f x \<notin> f ` set xs" using ex by simp
    then show ?thesis using False IH by simp
  qed
qed

subsection \<open>The raw rows are integer vectors\<close>

lemma product_repeat_map: "product_repeat (map f xs) k = map (map f) (product_repeat xs k)"
  by (induction k) (simp_all add: map_concat comp_def)

lemma dot_of_int: "dot (map of_int a) (map of_int b) = of_int (idot a b)"
proof (induction a arbitrary: b)
  case Nil
  then show ?case by (simp add: dot_def idot_def)
next
  case (Cons x a)
  show ?case
  proof (cases b)
    case Nil
    then show ?thesis by (simp add: dot_def idot_def)
  next
    case (Cons y b')
    then show ?thesis using Cons.IH[of b'] by (simp add: dot_def idot_def)
  qed
qed

lemma vectors_of_int:
  "vectors n False = map (map of_int) (transpose (product_repeat [-1, 1] n))"
proof -
  have "product_repeat [-1, 1::real] n = map (map of_int) (product_repeat [-1, 1] n)"
    using product_repeat_map[of "of_int :: int \<Rightarrow> real" "[-1, 1]" n] by simp
  then show ?thesis by (simp add: vectors_def transpose_map_map)
qed

lemma rows_raw_int:
  assumes "0 < n"
  shows "rows_raw n = Inr (map (map of_int) (int_rows n))"
proof -
  have "product_repeat [0, 1::real] k = map (map of_int) (product_repeat [0, 1] k)" for k
    using product_repeat_map[of "of_int :: int \<Rightarrow> real" "[0, 1]" k] by simp
  then show ?thesis
    by (simp add: rows_raw_eq[OF assms] vectors_of_int int_rows_def dot_of_int comp_def)
qed

subsection \<open>Two raw rows give the same candidate row iff they have the same direction up to sign\<close>

lemma real_eq_iff_sgn_square: "(a::real) = b \<longleftrightarrow> sgn a = sgn b \<and> a * a = b * b"
proof
  assume "sgn a = sgn b \<and> a * a = b * b"
  then have s: "sgn a = sgn b" and "\<bar>a\<bar> = \<bar>b\<bar>"
    by (simp_all add: abs_eq_iff' flip: power2_eq_square) (metis abs_eq_iff' power2_eq_iff abs_ge_zero abs_minus_cancel abs_of_nonneg)
  then show "a = b" by (metis mult_sgn_abs)
qed simp

lemma norm2_square: "norm2 row * norm2 row = sum_list (map (\<lambda>x. x * x) row)"
  by (simp add: norm2_def sum_squares_nonneg)

lemma sum_squares_of_int:
  "sum_list (map (\<lambda>x. x * x) (map real_of_int u)) = of_int (sum_list (map (\<lambda>x. x * x) u))"
  by (induction u) simp_all

lemma sgn_real_of_int: "sgn (real_of_int x) = real_of_int (sgn x)"
  by (simp add: sgn_if)

lemma nonzero_of_int:
  "list_ex (\<lambda>x. x \<noteq> 0) u \<longleftrightarrow> norm2 (map real_of_int u) \<noteq> 0"
  by (auto simp: norm2_eq_0_iff list_ex_iff)

lemma ifirst_sign_cases:
  assumes "list_ex (\<lambda>x. x \<noteq> 0) u"
  shows "\<exists>i rest. filter (\<lambda>i. u ! i \<noteq> 0) [0..<length u] = i # rest \<and> i < length u
     \<and> u ! i \<noteq> 0 \<and> ifirst_sign u = sgn (u ! i)"
proof -
  from assms obtain k where "k < length u" "u ! k \<noteq> 0"
    by (auto simp: list_ex_iff in_set_conv_nth)
  then have "filter (\<lambda>i. u ! i \<noteq> 0) [0..<length u] \<noteq> []"
    by (auto simp: filter_empty_conv)
  then obtain i rest where f: "filter (\<lambda>i. u ! i \<noteq> 0) [0..<length u] = i # rest"
    by (cases "filter (\<lambda>i. u ! i \<noteq> 0) [0..<length u]") auto
  from filter_upt_eq_Cons[OF this] have "i < length u" "u ! i \<noteq> 0" by simp_all
  then show ?thesis using f by (simp add: ifirst_sign_def)
qed

lemma ifirst_sign_sgn: "list_ex (\<lambda>x. x \<noteq> 0) u \<Longrightarrow> sgn (ifirst_sign u) = ifirst_sign u"
  using ifirst_sign_cases[of u] by (metis sgn_sgn)

lemma ifirst_sign_square: "list_ex (\<lambda>x. x \<noteq> 0) u \<Longrightarrow> ifirst_sign u * ifirst_sign u = 1"
  using ifirst_sign_cases[of u] by (auto simp: sgn_if)

lemma fix_row_unit:
  assumes "list_ex (\<lambda>x. x \<noteq> 0) u"
  shows "fix_row (map (\<lambda>x. x / norm2 (map real_of_int u)) (map real_of_int u))
     = Inr (map (\<lambda>x. real_of_int x / norm2 (map real_of_int u) * real_of_int (ifirst_sign u)) u)"
proof -
  let ?N = "norm2 (map real_of_int u)"
  let ?unit = "map (\<lambda>x. x / ?N) (map real_of_int u)"
  have N: "0 < ?N" using assms norm2_nonneg[of "map real_of_int u"]
    by (simp add: nonzero_of_int less_le)
  from ifirst_sign_cases[OF assms] obtain i rest where
    f: "filter (\<lambda>i. u ! i \<noteq> 0) [0..<length u] = i # rest" and i: "i < length u"
    and g: "ifirst_sign u = sgn (u ! i)" by blast
  have "filter (\<lambda>i. ?unit ! i \<noteq> 0) [0..<length ?unit] = filter (\<lambda>i. u ! i \<noteq> 0) [0..<length u]"
    using N by (intro filter_cong) simp_all
  then have idx: "first_non_zero_index ?unit = Inr i"
    by (simp only: first_non_zero_index_def f list.case)
  have "?unit ! i = real_of_int (u ! i) / ?N" using i by simp
  then have "sgn (?unit ! i) = real_of_int (ifirst_sign u)"
    using N by (simp only: g sgn_divide sgn_pos sgn_real_of_int div_by_1)
  then have "fix_row ?unit = Inr (map (\<lambda>x. x * real_of_int (ifirst_sign u)) ?unit)"
    by (simp only: fix_row_def idx bind_err_Inr)
  moreover have "map (\<lambda>x. x * real_of_int (ifirst_sign u)) ?unit
      = map (\<lambda>x. real_of_int x / ?N * real_of_int (ifirst_sign u)) u"
    by (simp add: comp_def)
  ultimately show ?thesis by (simp only:)
qed

lemma map_eq_map_iff: "map f xs = map g ys \<longleftrightarrow> list_all2 (\<lambda>x y. f x = g y) xs ys"
proof (induction xs arbitrary: ys)
  case Nil
  then show ?case by auto
next
  case (Cons x xs)
  then show ?case by (cases ys) auto
qed

lemma canonical_row_eq_iff:
  assumes u: "list_ex (\<lambda>x. x \<noteq> 0) u" and w: "list_ex (\<lambda>x. x \<noteq> 0) w"
  shows "map (\<lambda>x. real_of_int x / norm2 (map real_of_int u) * real_of_int (ifirst_sign u)) u
       = map (\<lambda>x. real_of_int x / norm2 (map real_of_int w) * real_of_int (ifirst_sign w)) w
     \<longleftrightarrow> same_direction u w"
proof -
  let ?Nu = "norm2 (map real_of_int u)" and ?Nw = "norm2 (map real_of_int w)"
  let ?gu = "ifirst_sign u" and ?gw = "ifirst_sign w"
  let ?su = "sum_list (map (\<lambda>x. x * x) u)" and ?sw = "sum_list (map (\<lambda>x. x * x) w)"
  have Nu: "0 < ?Nu" using u norm2_nonneg[of "map real_of_int u"] by (simp add: nonzero_of_int less_le)
  have Nw: "0 < ?Nw" using w norm2_nonneg[of "map real_of_int w"] by (simp add: nonzero_of_int less_le)
  have su: "?Nu * ?Nu = real_of_int ?su" by (simp only: norm2_square sum_squares_of_int)
  have sw: "?Nw * ?Nw = real_of_int ?sw" by (simp only: norm2_square sum_squares_of_int)
  have su0: "real_of_int ?su \<noteq> 0" using Nu su by (metis mult_eq_0_iff less_irrefl)
  have sw0: "real_of_int ?sw \<noteq> 0" using Nw sw by (metis mult_eq_0_iff less_irrefl)
  have gu: "real_of_int ?gu * real_of_int ?gu = 1"
    using ifirst_sign_square[OF u] by (metis of_int_mult of_int_1)
  have gw: "real_of_int ?gw * real_of_int ?gw = 1"
    using ifirst_sign_square[OF w] by (metis of_int_mult of_int_1)
  have point: "(real_of_int x / ?Nu * real_of_int ?gu = real_of_int y / ?Nw * real_of_int ?gw)
      \<longleftrightarrow> (sgn x * ?gu = sgn y * ?gw \<and> x * x * ?sw = y * y * ?su)" for x y
  proof -
    let ?a = "real_of_int x / ?Nu * real_of_int ?gu" and ?b = "real_of_int y / ?Nw * real_of_int ?gw"
    have sa: "sgn ?a = real_of_int (sgn x * ?gu)"
      using Nu by (simp add: sgn_mult sgn_divide sgn_real_of_int ifirst_sign_sgn[OF u])
    have sb: "sgn ?b = real_of_int (sgn y * ?gw)"
      using Nw by (simp add: sgn_mult sgn_divide sgn_real_of_int ifirst_sign_sgn[OF w])
    have "?a * ?a = (real_of_int x * real_of_int x) * (real_of_int ?gu * real_of_int ?gu) / (?Nu * ?Nu)"
      by simp
    then have qa: "?a * ?a = real_of_int (x * x) / real_of_int ?su"
      by (simp only: gu su of_int_mult mult_1_right)
    have "?b * ?b = (real_of_int y * real_of_int y) * (real_of_int ?gw * real_of_int ?gw) / (?Nw * ?Nw)"
      by simp
    then have qb: "?b * ?b = real_of_int (y * y) / real_of_int ?sw"
      by (simp only: gw sw of_int_mult mult_1_right)
    have "?a * ?a = ?b * ?b \<longleftrightarrow> real_of_int (x * x * ?sw) = real_of_int (y * y * ?su)"
      unfolding qa qb using su0 sw0 by (simp add: frac_eq_eq)
    then have "?a * ?a = ?b * ?b \<longleftrightarrow> x * x * ?sw = y * y * ?su"
      by (simp only: of_int_eq_iff)
    moreover have "sgn ?a = sgn ?b \<longleftrightarrow> sgn x * ?gu = sgn y * ?gw"
      by (simp only: sa sb of_int_eq_iff)
    ultimately show ?thesis using real_eq_iff_sgn_square[of ?a ?b] by blast
  qed
  have "map (\<lambda>x. real_of_int x / ?Nu * real_of_int ?gu) u = map (\<lambda>x. real_of_int x / ?Nw * real_of_int ?gw) w
      \<longleftrightarrow> list_all2 (\<lambda>x y. real_of_int x / ?Nu * real_of_int ?gu = real_of_int y / ?Nw * real_of_int ?gw) u w"
    by (rule map_eq_map_iff)
  also have "\<dots> \<longleftrightarrow> list_all2 (\<lambda>x y. sgn x * ?gu = sgn y * ?gw \<and> x * x * ?sw = y * y * ?su) u w"
    by (simp only: point)
  finally show ?thesis by (simp add: same_direction_def Let_def)
qed

lemma fix_rows_loop_map:
  "fix_rows_loop U = Inr V \<Longrightarrow> V = map (\<lambda>u. projr (fix_row u)) U"
proof (induction U arbitrary: V)
  case Nil
  then show ?case by simp
next
  case (Cons u U)
  then show ?case by (auto simp: bind_err_eq_Inr)
qed

lemma candidate_rows_count:
  assumes "0 < n"
  shows "\<exists>R. candidate_rows n = Inr R \<and> length R = count_directions n"
proof -
  let ?I = "filter (list_ex (\<lambda>x. x \<noteq> 0)) (int_rows n)"
  let ?unit = "\<lambda>row :: real list. map (\<lambda>x. x / norm2 row) row"
  let ?C = "\<lambda>u. map (\<lambda>x. real_of_int x / norm2 (map real_of_int u) * real_of_int (ifirst_sign u)) u"
  from candidate_rows_stages[OF assms] obtain rows U V where
    rows: "rows_raw n = Inr rows"
    and U: "U = unique_dim0 (map ?unit (filter (\<lambda>row. norm2 row \<noteq> 0) rows))"
    and V: "fix_rows_loop U = Inr V"
    and R: "candidate_rows n = Inr (unique_dim0 V)" by blast
  have "rows = map (map real_of_int) (int_rows n)"
    using rows rows_raw_int[OF assms] by simp
  then have "filter (\<lambda>row. norm2 row \<noteq> 0) rows = map (map real_of_int) ?I"
    by (simp add: filter_map comp_def nonzero_of_int[symmetric])
  then have setU: "set U = (\<lambda>u. ?unit (map real_of_int u)) ` set ?I"
    by (simp only: U set_unique_dim0 set_map image_image)
  have "set V = (\<lambda>u. projr (fix_row u)) ` set U"
    using fix_rows_loop_map[OF V] by simp
  also have "\<dots> = (\<lambda>u. projr (fix_row (?unit (map real_of_int u)))) ` set ?I"
    by (simp only: setU image_image)
  also have "\<dots> = ?C ` set ?I"
  proof (rule image_cong[OF refl])
    fix u assume "u \<in> set ?I"
    then have "list_ex (\<lambda>x. x \<noteq> 0) u" by simp
    from fix_row_unit[OF this]
    show "projr (fix_row (?unit (map real_of_int u))) = ?C u" by (simp only: sum.sel)
  qed
  finally have "length (unique_dim0 V) = card (?C ` set ?I)"
    by (simp add: length_unique_dim0)
  moreover have "length (remdups_by same_direction ?I) = card (?C ` set ?I)"
  proof (rule length_remdups_by, intro ballI)
    fix u w assume "u \<in> set ?I" "w \<in> set ?I"
    then have "list_ex (\<lambda>x. x \<noteq> 0) u" "list_ex (\<lambda>x. x \<noteq> 0) w" by simp_all
    from canonical_row_eq_iff[OF this] show "same_direction u w \<longleftrightarrow> ?C u = ?C w" by simp
  qed
  ultimately show ?thesis using R by (simp add: count_directions_def)
qed

lemma count_directions_3: "count_directions 3 = 25"
  by code_simp

lemma choose_25_3: "(25::nat) choose 3 = 2300"
proof -
  have "(Suc 24 choose Suc 2) = (Suc 24 * (24 choose 2)) div Suc 2"
    by (rule binomial_Suc_Suc_eq_times)
  moreover have "Suc 24 = 25" "Suc 2 = 3" by simp_all
  ultimately have "(25::nat) choose 3 = (25 * (24 choose 2)) div 3" by simp
  then show ?thesis by (simp add: choose_two)
qed

lemma combinations_upt:
  "length (combinations [0..<m] r) = m choose r
     \<and> distinct (combinations [0..<m] r)
     \<and> set (combinations [0..<m] r) = {c. length c = r \<and> sorted_wrt (<) c \<and> set c \<subseteq> {0..<m}}"
proof -
  have s: "sorted_wrt (<) [0..<m]" by simp
  have "set (combinations [0..<m] r) = {c. length c = r \<and> sorted_wrt (<) c \<and> set c \<subseteq> {0..<m}}"
  proof (rule set_eqI)
    fix c
    show "c \<in> set (combinations [0..<m] r)
        \<longleftrightarrow> c \<in> {c. length c = r \<and> sorted_wrt (<) c \<and> set c \<subseteq> {0..<m}}"
    proof
      assume c: "c \<in> set (combinations [0..<m] r)"
      from combinations_member[OF c] combinations_increasing[OF s c]
      show "c \<in> {c. length c = r \<and> sorted_wrt (<) c \<and> set c \<subseteq> {0..<m}}" by simp
    next
      assume "c \<in> {c. length c = r \<and> sorted_wrt (<) c \<and> set c \<subseteq> {0..<m}}"
      then have "length c = r" "sorted_wrt (<) c" "set c \<subseteq> set [0..<m]" by simp_all
      from combinations_complete[OF s this] show "c \<in> set (combinations [0..<m] r)" .
    qed
  qed
  then show ?thesis by (simp add: length_combinations distinct_combinations)
qed

lemma candidate_rows_3: "\<exists>R. candidate_rows 3 = Inr R \<and> length R = 25"
proof -
  have "0 < (3::nat)" by simp
  from candidate_rows_count[OF this] show ?thesis by (simp only: count_directions_3)
qed

section \<open>The candidate rows\<close>



text \<open>
  Claim C4. For every \<open>n \<ge> 1\<close>, the rows returned by \<^verbatim>\<open>candidate_rows(n)\<close> are pairwise
  different, no row is the negative of a row (of another one or of itself), and the first
  nonzero entry of every row is positive.
\<close>

theorem candidate_rows_sign_canonical:
  "1 \<le> n \<Longrightarrow>
     \<exists>R. candidate_rows n = Inr R \<and> distinct R
       \<and> (\<forall>u\<in>set R. \<forall>v\<in>set R. v \<noteq> map uminus u)
       \<and> (\<forall>u\<in>set R. \<exists>i<length u. 0 < u ! i \<and> (\<forall>j<i. u ! j = 0))"
proof -
  assume "1 \<le> n"
  then have "0 < n" by simp
  from candidate_rows_stages[OF this] obtain U V where
    V: "fix_rows_loop U = Inr V"
    and R: "candidate_rows n = Inr (unique_dim0 V)" by blast
  have canon: "\<exists>i<length row. 0 < row ! i \<and> (\<forall>j<i. row ! j = 0)"
    if "row \<in> set (unique_dim0 V)" for row
  proof -
    from that have "row \<in> set V" by simp
    from fix_rows_loop_member[OF V this] obtain u where "fix_row u = Inr row" by blast
    then show ?thesis by (rule fix_row_sign_canonical)
  qed
  then have "\<forall>u\<in>set (unique_dim0 V). \<forall>v\<in>set (unique_dim0 V). v \<noteq> map uminus u"
    using sign_canonical_no_negative by blast
  then show ?thesis using R canon distinct_unique_dim0 by blast
qed

theorem candidate_rows_sign_canonical_witness:
  "1 \<le> (1::nat) \<and> candidate_rows 1 = Inr [[1]] \<and> distinct [[1::real]]
     \<and> [1] \<noteq> map uminus [1::real] \<and> 0 < length [1::real] \<and> 0 < [1::real] ! 0"
  using candidate_rows_sign_canonical [of 1]
  by (simp add: candidate_rows_1)

text \<open>
  Claim C6. For every \<open>n \<ge> 1\<close>, the rows that remain after the not-a-number filter are
  exactly the normalised raw rows whose selector does not sum to the zero vector, in their
  order: every zero raw row is dropped before deduplication and sign canonicalisation. Every
  entry of a remaining row is a finite number, none is not-a-number, so the conversion to
  finite rows succeeds and it is those finite rows that are deduplicated and reach the later
  stages.
\<close>

theorem zero_rows_filtered:
  "1 \<le> n \<Longrightarrow>
     \<exists>rows t finite_rows. rows_raw n = Inr rows
       \<and> normalized_rows n = Inr t
       \<and> t = map normalize_row (filter (\<lambda>row. \<not> list_all (\<lambda>x. x = 0) row) rows)
       \<and> (\<forall>row\<in>set t. \<forall>x\<in>set row. x \<noteq> NaN \<and> (\<exists>y. x = Fin y))
       \<and> rows_to_reals t = Inr finite_rows
       \<and> unique_normalized_rows n = Inr (unique_dim0 finite_rows)"
proof -
  assume "1 \<le> n"
  then have "0 < n" by simp
  obtain rows where rows: "rows_raw n = Inr rows" using rows_raw_eq[OF \<open>0 < n\<close>] by blast
  define t where "t = drop_nan_rows (map normalize_row rows)"
  have t: "normalized_rows n = Inr t"
    by (simp add: normalized_rows_def normalized_rows_with_nans_def rows t_def)
  have nz: "(\<lambda>row. \<not> list_all (\<lambda>x. x = 0) row) = (\<lambda>row. norm2 row \<noteq> 0)"
    by (simp add: norm2_eq_0_iff list_all_iff)
  have t_eq: "t = map normalize_row (filter (\<lambda>row. \<not> list_all (\<lambda>x. x = 0) row) rows)"
    unfolding nz t_def drop_nan_rows_normalize
    by (rule map_cong) (simp_all add: normalize_row_nonzero)
  have fin: "\<forall>row\<in>set t. \<forall>x\<in>set row. x \<noteq> NaN \<and> (\<exists>y. x = Fin y)"
    by (auto simp: t_def drop_nan_rows_normalize)
  obtain finite_rows where fr: "rows_to_reals t = Inr finite_rows"
    unfolding t_def by (simp add: rows_to_reals_normalized)
  have "unique_normalized_rows n = Inr (unique_dim0 finite_rows)"
    using t fr by (simp add: unique_normalized_rows_def)
  then show ?thesis using rows t t_eq fin fr by blast
qed

theorem zero_rows_filtered_witness:
  "1 \<le> (1::nat) \<and> rows_raw 1 = Inr [[0], [1], [-1], [0]]
     \<and> normalized_rows 1 = Inr [[Fin 1], [Fin (-1)]]
     \<and> map normalize_row (filter (\<lambda>row. \<not> list_all (\<lambda>x. x = 0) row) [[0], [1], [-1], [0]])
         = [[Fin 1], [Fin (-1)]]
     \<and> rows_to_reals [[Fin 1], [Fin (-1)]] = Inr [[1], [-1]]
     \<and> unique_normalized_rows 1 = Inr (unique_dim0 [[1], [-1]])"
  using zero_rows_filtered [of 1]
  by (simp add: rows_raw_1 normalized_rows_1 unique_normalized_rows_1 unique_dim0_def
      normalize_row_def norm2_def fdiv_def)

text \<open>
  Claim C10. For every \<open>n \<ge> 1\<close>, every row handed to \<^verbatim>\<open>fix_row_signs\<close> inside
  \<^verbatim>\<open>candidate_rows\<close> has a nonzero entry, so the lookup of the first nonzero index
  succeeds on each of them, and \<^verbatim>\<open>candidate_rows(n)\<close> returns a tensor instead of raising.
\<close>

theorem first_nonzero_lookup_never_fails:
  "1 \<le> n \<Longrightarrow>
     \<exists>U R. unique_normalized_rows n = Inr U
       \<and> (\<forall>row\<in>set U. \<exists>i. first_non_zero_index row = Inr i \<and> row ! i \<noteq> 0)
       \<and> candidate_rows n = Inr R"
proof -
  assume "1 \<le> n"
  then have "0 < n" by simp
  from candidate_rows_stages[OF this] obtain U V where
    U: "unique_normalized_rows n = Inr U" and Un: "\<forall>u\<in>set U. norm2 u = 1 \<and> length u = n"
    and R: "candidate_rows n = Inr (unique_dim0 V)" by blast
  have "\<exists>i. first_non_zero_index row = Inr i \<and> row ! i \<noteq> 0" if "row \<in> set U" for row
  proof -
    have "norm2 row \<noteq> 0" using Un that by simp
    then have "\<exists>x\<in>set row. x \<noteq> 0" by (simp add: norm2_eq_0_iff)
    from first_non_zero_index_exists[OF this] obtain i where "first_non_zero_index row = Inr i"
      by blast
    then show ?thesis using first_non_zero_index_Inr by blast
  qed
  then show ?thesis using U R by blast
qed

theorem first_nonzero_lookup_never_fails_witness:
  "1 \<le> (1::nat) \<and> unique_normalized_rows 1 = Inr [[-1], [1]]
     \<and> first_non_zero_index [-1] = Inr 0 \<and> [-1::real] ! 0 \<noteq> 0
     \<and> first_non_zero_index [1] = Inr 0 \<and> [1::real] ! 0 \<noteq> 0
     \<and> candidate_rows 1 = Inr [[1]]"
  using first_nonzero_lookup_never_fails [of 1]
  by (simp add: unique_normalized_rows_1 candidate_rows_1 first_non_zero_index_def)


section \<open>The objective\<close>

text \<open>
  Claim C9. For every \<open>n \<ge> 1\<close>, the columns of the evaluation matrix \<^verbatim>\<open>binary_vectors\<close> are
  the first \<open>2 ^ (n - 1)\<close> sign vectors of the lexicographic enumeration, pairwise different;
  they are precisely the sign vectors whose first coordinate is \<open>-1\<close>, and of every sign
  vector \<open>v\<close> of length \<open>n\<close> exactly one of \<open>v\<close> and \<open>-v\<close> is a column.
\<close>

theorem binary_vectors_half_set:
  "1 \<le> n \<Longrightarrow>
     transpose (binary_vectors n) = take (2 ^ (n - 1)) (product_repeat [-1, 1] n)
     \<and> length (transpose (binary_vectors n)) = 2 ^ (n - 1)
     \<and> distinct (transpose (binary_vectors n))
     \<and> set (transpose (binary_vectors n)) = {v \<in> set (product_repeat [-1, 1] n). hd v = -1}
     \<and> (\<forall>v\<in>set (product_repeat [-1, 1] n).
          (v \<in> set (transpose (binary_vectors n)))
            \<noteq> (map uminus v \<in> set (transpose (binary_vectors n))))"
proof -
  assume "1 \<le> n"
  then obtain m where n: "n = Suc m" by (cases n) auto
  let ?Q = "product_repeat [-1, 1::real] m"
  let ?H = "map ((#) (-1)) ?Q"
  have cols: "transpose (binary_vectors n) = ?H" by (simp add: n binary_vectors_columns)
  have first: "?H = take (2 ^ (n - 1)) (product_repeat [-1, 1] n)"
    by (simp add: n length_product_repeat_pair)
  have len: "length ?H = 2 ^ (n - 1)" by (simp add: n length_product_repeat_pair)
  have dist: "distinct ?H" by (simp add: distinct_map distinct_product_repeat)
  have set_eq: "set ?H = {v \<in> set (product_repeat [-1, 1] n). hd v = -1}"
    by (auto simp: n)
  have one: "(v \<in> set ?H) \<noteq> (map uminus v \<in> set ?H)"
    if "v \<in> set (product_repeat [-1, 1] n)" for v
  proof -
    from that obtain x v' where v: "v = x # v'" "x = -1 \<or> x = 1" "v' \<in> set ?Q"
      by (auto simp: n)
    from v(2) show ?thesis
    proof
      assume "x = -1"
      then show ?thesis using v by auto
    next
      assume "x = 1"
      then show ?thesis using v sign_vector_uminus[OF v(3)] by auto
    qed
  qed
  show ?thesis unfolding cols using first len dist set_eq one by blast
qed

theorem binary_vectors_half_set_witness:
  "1 \<le> (2::nat)
     \<and> transpose (binary_vectors 2) = [[-1, -1], [-1, 1]]
     \<and> product_repeat [-1, 1::real] 2 = [[-1, -1], [-1, 1], [1, -1], [1, 1]]
     \<and> [1, -1] \<notin> set (transpose (binary_vectors 2))
     \<and> map uminus [1, -1] \<in> set (transpose (binary_vectors 2))"
  using binary_vectors_half_set [of 2]
  by (simp add: numeral_2_eq_2 binary_vectors_columns)

text \<open>
  Claim C5. For every matrix \<open>A\<close> and every evaluation matrix, \<^verbatim>\<open>beta\<close> gives the same
  result (the same value, or the same error) when the rows of \<open>A\<close> are permuted, and when one
  row of \<open>A\<close> is negated.
\<close>

theorem beta_row_invariance:
  "(mset A' = mset A \<longrightarrow> beta A' bvs = beta A bvs)
     \<and> (i < length A \<longrightarrow> beta (A[i := map uminus (A ! i)]) bvs = beta A bvs)"
proof (intro conjI impI)
  assume "mset A' = mset A"
  then have s: "set A' = set A" and e: "A' = [] \<longleftrightarrow> A = []"
    by (auto dest: mset_eq_setD)
  show "beta A' bvs = beta A bvs"
    by (simp add: beta_eq list_all_iff s e)
next
  assume i: "i < length A"
  let ?A' = "A[i := map uminus (A ! i)]"
  have shapes: "list_all (\<lambda>a. length a = length bvs) ?A' \<longleftrightarrow> list_all (\<lambda>a. length a = length bvs) A"
  proof -
    have "map length ?A' = map length A"
      using i by (simp add: map_update list_update_same_conv)
    moreover have "list_all (\<lambda>a. length a = length bvs) X
        = list_all (\<lambda>l. l = length bvs) (map length X)" for X :: mat
      by (simp add: list.pred_map comp_def)
    ultimately show ?thesis by simp
  qed
  have vals: "map (\<lambda>a. \<bar>dot a c\<bar>) ?A' = map (\<lambda>a. \<bar>dot a c\<bar>) A" for c
    using i by (simp add: map_update dot_uminus_left list_update_same_conv)
  have e: "?A' = [] \<longleftrightarrow> A = []" by simp
  show "beta ?A' bvs = beta A bvs"
    unfolding beta_eq shapes vals e ..
qed

theorem beta_row_invariance_witness:
  "mset [[0, 1], [1, 0]] = mset [[1, 0], [0, 1::real]]
     \<and> beta [[0, 1], [1, 0]] (binary_vectors 2) = beta [[1, 0], [0, 1]] (binary_vectors 2)
     \<and> 0 < length [[1, 0], [0, 1::real]]
     \<and> beta [[-1, 0], [0, 1]] (binary_vectors 2) = beta [[1, 0], [0, 1]] (binary_vectors 2)
     \<and> beta [[1, 0], [0, 1]] (binary_vectors 2) = Inr (Fin 1)"
  using beta_row_invariance [of "[[0, 1], [1, 0]]" "[[1, 0], [0, 1]]" "binary_vectors 2" 0]
  by (simp add: beta_example)

section \<open>The search\<close>

text \<open>
  Claim C1. Let \<open>R\<close> be a list of candidate rows of length \<open>n \<ge> 1\<close>, each with a nonzero
  entry (as every row of norm 1 has), and \<open>1 \<le> r \<le> |R|\<close>. The search returns, without an
  error, a value \<open>M\<close> and the matrix of a combination \<open>c\<close> such that \<open>beta\<close> of that matrix is
  \<open>M\<close>, \<open>beta\<close> of every combination's matrix is at most \<open>M\<close>, and \<open>c\<close> is
  lexicographically the least of the combinations whose value is \<open>M\<close>: a tie does not replace
  the maximizer found first.
\<close>

theorem search_returns_first_maximum:
  assumes "1 \<le> n" and "1 \<le> r" and "r \<le> length R"
    and "\<forall>row\<in>set R. length row = n \<and> (\<exists>x\<in>set row. x \<noteq> 0)"
  shows "\<exists>M c. search R (binary_vectors n) r = Inr (Fin M, Some (map ((!) R) c))
      \<and> c \<in> set (combinations [0..<length R] r)
      \<and> beta (map ((!) R) c) (binary_vectors n) = Inr (Fin M)
      \<and> (\<forall>c'\<in>set (combinations [0..<length R] r).
            \<exists>b. beta (map ((!) R) c') (binary_vectors n) = Inr (Fin b)
              \<and> b \<le> M \<and> (b = M \<longrightarrow> c \<le> c'))"
proof -
  from assms(1) obtain m where n: "n = Suc m" by (cases n) auto
  let ?cs = "combinations [0..<length R] r"
  let ?sel = "\<lambda>c. map ((!) R) c"
  let ?bvs = "binary_vectors n"
  define g where "g c = (case beta (?sel c) ?bvs of Inr (Fin b) \<Rightarrow> b | _ \<Rightarrow> 0)" for c
  have val: "index_rows R c = Inr (?sel c) \<and> beta (?sel c) ?bvs = Inr (Fin (g c)) \<and> 0 < g c"
    if "c \<in> set ?cs" for c
  proof -
    note sel = index_rows_combination[OF that assms(2)]
    have "\<forall>a\<in>set (?sel c). length a = Suc m \<and> (\<exists>x\<in>set a. x \<noteq> 0)"
      using sel(3) assms(4) n by blast
    from beta_binary_vectors_pos[OF sel(2) this] obtain b where
      "beta (?sel c) ?bvs = Inr (Fin b)" "0 < b" unfolding n by blast
    then show ?thesis using sel(1) by (simp add: g_def)
  qed
  then have pre: "\<forall>c\<in>set ?cs. index_rows R c = Inr (?sel c) \<and> beta (?sel c) ?bvs = Inr (Fin (g c))"
    by blast
  from search_loop_first_max[OF pre, of 0 None] obtain M best where
    res: "search_loop R ?bvs ?cs (Fin 0, None) = Inr (Fin M, best)"
    and ub: "\<forall>c\<in>set ?cs. g c \<le> M"
    and alt: "(M = 0 \<and> best = None)
        \<or> (0 < M \<and> (\<exists>pre c post. ?cs = pre @ c # post \<and> g c = M \<and> best = Some (?sel c)
              \<and> (\<forall>c'\<in>set pre. g c' < M)))"
    by blast
  have "0 < length ?cs" using assms(3) by (simp add: length_combinations)
  then obtain c0 where c0: "c0 \<in> set ?cs" by (cases ?cs) auto
  have "0 < M" using val[OF c0] ub c0 by force
  with alt obtain pre c post where split: "?cs = pre @ c # post" and gc: "g c = M"
    and best: "best = Some (?sel c)" and before: "\<forall>c'\<in>set pre. g c' < M"
    by auto
  have cin: "c \<in> set ?cs" by (simp add: split)
  have "sorted_wrt (<) ?cs" by (rule combinations_lex_sorted) simp
  then have after: "\<forall>c'\<in>set post. c < c'" by (simp add: split sorted_wrt_append)
  have each: "\<exists>b. beta (?sel c') ?bvs = Inr (Fin b) \<and> b \<le> M \<and> (b = M \<longrightarrow> c \<le> c')"
    if "c' \<in> set ?cs" for c'
  proof -
    have "g c' = M \<longrightarrow> c \<le> c'"
    proof
      assume "g c' = M"
      then have "c' \<notin> set pre" using before by auto
      then have "c' = c \<or> c' \<in> set post" using that by (simp add: split)
      then show "c \<le> c'" using after by auto
    qed
    then show ?thesis using val[OF that] ub that by blast
  qed
  have "search R ?bvs r = Inr (Fin M, Some (?sel c))"
    using res best by (simp add: search_def)
  moreover have "beta (?sel c) ?bvs = Inr (Fin M)" using val[OF cin] gc by simp
  ultimately show ?thesis using cin each by blast
qed

theorem search_returns_first_maximum_witness:
  "1 \<le> (1::nat) \<and> 1 \<le> length [[1], [-1::real]]
     \<and> length [1::real] = 1 \<and> (1::real) \<noteq> 0 \<and> length [-1::real] = 1 \<and> (-1::real) \<noteq> 0
     \<and> combinations [0..<length [[1], [-1::real]]] 1 = [[0], [1]]
     \<and> beta [[1]] (binary_vectors 1) = Inr (Fin 1)
     \<and> beta [[-1]] (binary_vectors 1) = Inr (Fin 1)
     \<and> [0] \<le> [1::nat]
     \<and> search [[1], [-1]] (binary_vectors 1) 1 = Inr (Fin 1, Some [[1]])"
  using search_returns_first_maximum [of 1 1 "[[1], [-1]]"]
  by (simp add: binary_vectors_1 beta_1 beta_minus_1 search_tie)

text \<open>
  Claim C2. For every \<open>n \<ge> 1\<close> and every \<open>r\<close> up to the number of candidate rows, the
  combinations that the search enumerates are as many as the binomial coefficient, without a
  repeat, and they are exactly the strictly increasing \<open>r\<close>-tuples of indices of candidate
  rows. For \<open>n = 3\<close> there are 25 candidate rows, and for \<open>r = 3\<close> 2300 combinations.
\<close>

theorem combinations_enumerated:
  "1 \<le> n \<Longrightarrow>
     (\<exists>R. candidate_rows n = Inr R
        \<and> (\<forall>r\<le>length R.
              length (combinations [0..<length R] r) = length R choose r
              \<and> distinct (combinations [0..<length R] r)
              \<and> set (combinations [0..<length R] r)
                  = {c. length c = r \<and> sorted_wrt (<) c \<and> set c \<subseteq> {0..<length R}}))
     \<and> (\<exists>R. candidate_rows 3 = Inr R \<and> length R = 25
            \<and> length (combinations [0..<length R] 3) = 2300)"
proof -
  assume "1 \<le> n"
  then have "0 < n" by simp
  from candidate_rows_count[OF this] obtain R where R: "candidate_rows n = Inr R" by blast
  from candidate_rows_3 obtain R3 where R3: "candidate_rows 3 = Inr R3" "length R3 = 25" by blast
  have "length (combinations [0..<length R3] 3) = 2300"
    by (simp only: length_combinations R3(2) length_upt diff_zero choose_25_3)
  then have second: "\<exists>R. candidate_rows 3 = Inr R \<and> length R = 25
      \<and> length (combinations [0..<length R] 3) = 2300"
    using R3 by blast
  have first: "\<exists>R. candidate_rows n = Inr R
        \<and> (\<forall>r\<le>length R.
              length (combinations [0..<length R] r) = length R choose r
              \<and> distinct (combinations [0..<length R] r)
              \<and> set (combinations [0..<length R] r)
                  = {c. length c = r \<and> sorted_wrt (<) c \<and> set c \<subseteq> {0..<length R}})"
    using R combinations_upt by (intro exI[of _ R] conjI allI impI) simp_all
  from first second show ?thesis by (rule conjI)
qed

theorem combinations_enumerated_witness:
  "1 \<le> (1::nat) \<and> candidate_rows 1 = Inr [[1]] \<and> 1 \<le> length [[1::real]]
     \<and> combinations [0..<length [[1::real]]] 1 = [[0]]
     \<and> length [[1::real]] choose 1 = 1
     \<and> (\<exists>R. candidate_rows 3 = Inr R \<and> length R = 25
            \<and> length (combinations [0..<length R] 3) = 2300)"
  using combinations_enumerated [of 1]
  by (simp add: candidate_rows_1)

section \<open>The empty search\<close>

text \<open>
  Claim C7. When \<open>r\<close> is greater than the number of candidate rows, there is no combination
  to enumerate: the loop body never runs, nothing is raised, and the search returns its
  initial state, \<open>beta_max = 0\<close> and no best matrix.
\<close>

theorem search_more_than_candidates:
  "length rows < r \<Longrightarrow> search rows bvs r = Inr (Fin 0, None)"
  by (simp add: search_def combinations_too_many)

theorem search_more_than_candidates_witness:
  "length [[1::real]] < 2 \<and> search [[1]] [[-1]] 2 = Inr (Fin 0, None)"
  using search_more_than_candidates [of "[[1]]" 2 "[[-1]]"] by simp


section \<open>Invalid parameters\<close>

text \<open>
  Claim C8 says that an invalid pair \<open>(n, r)\<close> is rejected before any work is done. The
  notebook has no check of its parameters. For \<open>n = 1\<close> there is one candidate row, so
  \<open>r = 2\<close> is invalid; yet the candidate rows are generated and the search loop ends with the
  zero result instead of an error.
\<close>

theorem invalid_r_not_rejected:
  "candidate_rows 1 = Inr [[1]] \<and> length [[1::real]] < 2
     \<and> sequential_search 1 2 = Inr (Fin 0, None)"
  by (simp add: candidate_rows_1 sequential_search_1_2)

text \<open>
  Claim C8, as the code has it. For every \<open>n \<ge> 1\<close> the candidate rows are generated whatever
  \<open>r\<close> is. When \<open>r\<close> is greater than their number nothing rejects the call: the search loop
  ends with its initial state, \<open>beta_max = 0\<close> and no matrix. When \<open>r = 0\<close> the run fails with
  an IndexError, but only in the first iteration of the loop, after the candidate rows were
  generated.
\<close>

theorem no_validation_of_parameters:
  "1 \<le> n \<Longrightarrow>
     \<exists>R. candidate_rows n = Inr R
       \<and> (\<forall>r. length R < r \<longrightarrow> sequential_search n r = Inr (Fin 0, None))
       \<and> sequential_search n 0 = Inl IndexError"
proof -
  assume "1 \<le> n"
  then have "0 < n" by simp
  from candidate_rows_stages[OF this] obtain R where R: "candidate_rows n = Inr R" by blast
  have "sequential_search n r = Inr (Fin 0, None)" if "length R < r" for r
    using that by (simp add: sequential_search_def R search_def combinations_too_many)
  moreover have "sequential_search n 0 = Inl IndexError"
    by (simp add: sequential_search_def R search_def index_rows_def)
  ultimately show ?thesis using R by blast
qed

theorem no_validation_of_parameters_witness:
  "1 \<le> (1::nat) \<and> candidate_rows 1 = Inr [[1]] \<and> length [[1::real]] < 3
     \<and> sequential_search 1 3 = Inr (Fin 0, None)
     \<and> sequential_search 1 0 = Inl IndexError"
  using no_validation_of_parameters [of 1]
  by (simp add: candidate_rows_1)

end
